theory Spec2Isabelle
  imports Complex_Main
begin

section \<open>The Pagination component of the carousel\<close>

text \<open>
  The source is \<^verbatim>\<open>src/js/components/Pagination/Pagination.ts\<close>: a closure over the
  two variables \<^verbatim>\<open>items\<close> and \<^verbatim>\<open>list\<close>, whose functions build a row of buttons in
  the document, keep the classes and attributes of the buttons in step with the index of
  the carousel, and pass clicks and keys on to the controller.

  The document is an explicit store of elements addressed by identity, since the items
  hold references to elements that the functions mutate. The collaborators of the
  component (options, controller, slides, direction) are not part of the source: their
  answers at the time of a call are the fields of a record that every function takes.
\<close>

subsection \<open>Constants of the imported modules\<close>

text \<open>
  Modelled from the spec: the modules \<^verbatim>\<open>constants/attributes\<close> and
  \<^verbatim>\<open>constants/classes\<close> are not part of the source. The attribute constants carry the
  names the specification uses for them (role, aria-label, aria-selected, tabindex);
  the class constants are the status classes of the carousel.
\<close>

definition ROLE :: string where "ROLE = ''role''"
definition ARIA_LABEL :: string where "ARIA_LABEL = ''aria-label''"
definition ARIA_SELECTED :: string where "ARIA_SELECTED = ''aria-selected''"
definition ARIA_CONTROLS :: string where "ARIA_CONTROLS = ''aria-controls''"
definition TAB_INDEX :: string where "TAB_INDEX = ''tabindex''"
definition CLASS_ACTIVE :: string where "CLASS_ACTIVE = ''is-active''"
definition CLASS_FOCUS :: string where "CLASS_FOCUS = ''is-focus-in''"

text \<open>
  Modelled from the spec: the module \<^verbatim>\<open>constants/events\<close> is not part of the source;
  the six event names the component uses are kept symbolic.
\<close>

datatype event_name =
  EVENT_MOVE | EVENT_SCROLLED | EVENT_UPDATED | EVENT_REFRESH
  | EVENT_PAGINATION_MOUNTED | EVENT_PAGINATION_UPDATED

subsection \<open>Numbers and strings of the host language\<close>

text \<open>
  The bound of the creation loop is a number of the host language: a division by zero
  gives an infinity or not-a-number, not an error.
\<close>

datatype jsnum = Num nat | Infinity | NaN

text \<open>\<^verbatim>\<open>i < max\<close> for a loop counter \<^verbatim>\<open>i\<close>: every comparison with not-a-number is false.\<close>

fun js_lt :: "nat \<Rightarrow> jsnum \<Rightarrow> bool" where
  "js_lt i (Num m) = (i < m)"
| "js_lt i Infinity = True"
| "js_lt i NaN = False"

text \<open>
  \<^verbatim>\<open>ceil( a / b )\<close> on two counts. The quotient is the exact one: the rounding of the
  division of the host is not modelled.
\<close>

definition js_ceil_div :: "nat \<Rightarrow> nat \<Rightarrow> jsnum" where
  "js_ceil_div a b =
     (if b = 0 then (if a = 0 then NaN else Infinity)
      else Num (nat \<lceil>real a / real b\<rceil>))"

text \<open>
  The remainder operator \<^verbatim>\<open>%\<close> truncates towards zero and takes the sign of the dividend;
  with a zero divisor the result is not-a-number (\<open>None\<close>).
\<close>

definition js_rem :: "int \<Rightarrow> int \<Rightarrow> int option" where
  "js_rem a b = (if b = 0 then None else Some (sgn a * (\<bar>a\<bar> mod \<bar>b\<bar>)))"

text \<open>
  \<^verbatim>\<open>xs[ k ]\<close>: an array read outside the array gives \<^verbatim>\<open>undefined\<close> (\<open>None\<close>), never an
  error; so does a read at not-a-number.
\<close>

definition js_index :: "'a list \<Rightarrow> int \<Rightarrow> 'a option" where
  "js_index xs k = (if 0 \<le> k \<and> k < int (length xs) then Some (xs ! nat k) else None)"

definition js_index_opt :: "'a list \<Rightarrow> int option \<Rightarrow> 'a option" where
  "js_index_opt xs k = (case k of None \<Rightarrow> None | Some j \<Rightarrow> js_index xs j)"

text \<open>The decimal digits of an integer, as a template literal prints it.\<close>

definition digit_char :: "nat \<Rightarrow> char" where
  "digit_char d = ''0123456789'' ! d"

fun show_nat :: "nat \<Rightarrow> string" where
  "show_nat n = (if n < 10 then [digit_char n] else show_nat (n div 10) @ [digit_char (n mod 10)])"

definition show_int :: "int \<Rightarrow> string" where
  "show_int k = (if k < 0 then CHR ''-'' # show_nat (nat (- k)) else show_nat (nat k))"

text \<open>\<^verbatim>\<open>ids.join( ' ' )\<close>.\<close>

fun join_space :: "string list \<Rightarrow> string" where
  "join_space [] = []"
| "join_space [x] = x"
| "join_space (x # y # ys) = x @ '' '' @ join_space (y # ys)"

subsection \<open>The document\<close>

text \<open>
  A listener is one of the four callbacks the component binds: the two partial
  applications of \<^verbatim>\<open>addClass\<close> and \<^verbatim>\<open>removeClass\<close> to an element and a class, and the
  partial applications of \<^verbatim>\<open>onClick\<close> and \<^verbatim>\<open>onKeydown\<close> to a page. The type parameter
  is the reference to the element a callback has captured.
\<close>

datatype 'r handler =
  AddClass 'r string | RemoveClass 'r string | OnClick nat | OnKeydown nat

text \<open>
  An element: its tag, class list, attributes, parent node and the listeners bound to it.
  The tree is kept as parent pointers; the order of siblings is the order of creation.
\<close>

record element =
  tag :: string
  classes :: "string set"
  attrs :: "string \<rightharpoonup> string"
  parent :: "nat option"
  listeners :: "(string \<times> nat handler) list"

record item =
  li :: nat
  button :: nat
  page :: nat

text \<open>What \<^verbatim>\<open>emit\<close> has sent: the event and its arguments, as they were at that moment.\<close>

datatype event =
  PaginationMounted "nat option" "item list" "item option"
  | PaginationUpdated "nat option" "item list" "item option" "item option"

datatype callback = CbInit | CbUpdate

text \<open>
  The state: the two variables of the closure (\<open>items\<close>; \<open>list_elm\<close> for \<^verbatim>\<open>list\<close>,
  \<open>None\<close> when it is null or undefined), the document with its allocation counter and
  the focused element, and the traces of the calls that leave the component: events
  emitted, commands given to \<^verbatim>\<open>Controller.go\<close>, and the subscriptions made with \<^verbatim>\<open>on\<close>.
\<close>

record state =
  items :: "item list"
  list_elm :: "nat option"
  elements :: "nat \<Rightarrow> element"
  next_id :: nat
  focused :: "nat option"
  emitted :: "event list"
  go_calls :: "(string \<times> bool option) list"
  subscriptions :: "(event_name \<times> callback) list"

text \<open>\<^verbatim>\<open>options.pagination\<close> is a boolean or a string.\<close>

datatype pagination_option = PBool bool | PStr string

fun truthy :: "pagination_option \<Rightarrow> bool" where
  "truthy (PBool b) = b"
| "truthy (PStr s) = (s \<noteq> [])"

text \<open>
  The answers of the collaborators at the time of a call: the options (\<^verbatim>\<open>pagination\<close>,
  \<^verbatim>\<open>perPage\<close>, two class names, three texts), \<^verbatim>\<open>Splide.length\<close> and \<^verbatim>\<open>Splide.index\<close>,
  \<^verbatim>\<open>Slides.isEnough()\<close>, the controller (\<^verbatim>\<open>hasFocus()\<close>, \<^verbatim>\<open>getIndex( prev )\<close>,
  \<^verbatim>\<open>toPage( index )\<close>), the identifiers of the slides of a page
  (\<^verbatim>\<open>Slides.getIn( i )\<close>), \<^verbatim>\<open>Direction.resolve\<close>, \<^verbatim>\<open>normalizeKey\<close>, \<^verbatim>\<open>format\<close>, and
  the root and slider elements. The length and \<^verbatim>\<open>perPage\<close> are counts; an index and a
  page are integers.
\<close>

record env =
  opt_pagination :: pagination_option
  opt_perPage :: nat
  classes_pagination :: string
  classes_page :: string
  i18n_select :: string
  i18n_pageX :: string
  i18n_slideX :: string
  splide_length :: nat
  splide_index :: int
  isEnough :: bool
  hasFocus :: bool
  getIndex :: "bool \<Rightarrow> int"
  toPage :: "int \<Rightarrow> int"
  getIn_ids :: "nat \<Rightarrow> string list"
  resolve :: "string \<Rightarrow> string"
  normalizeKey :: "string \<Rightarrow> string"
  format_text :: "string \<Rightarrow> nat \<Rightarrow> string"
  elements_root :: nat
  elements_slider :: "nat option"

record dom_event =
  key :: string
  defaultPrevented :: bool
  propagationStopped :: bool

subsection \<open>The helpers of the utility module\<close>

text \<open>
  Modelled from the spec: the module \<^verbatim>\<open>utils\<close> is not part of the source. Each helper is
  the operation of the document that its name says: \<^verbatim>\<open>setAttribute\<close> stores the string
  form of the value, \<^verbatim>\<open>create\<close> makes a new element with the classes or attributes given
  and appends it to the parent, \<^verbatim>\<open>remove\<close> detaches a node from its parent.
\<close>

definition modify :: "nat \<Rightarrow> (element \<Rightarrow> element) \<Rightarrow> state \<Rightarrow> state" where
  "modify x f s = s\<lparr>elements := (elements s)(x := f (elements s x))\<rparr>"

definition addClass :: "nat \<Rightarrow> string \<Rightarrow> state \<Rightarrow> state" where
  "addClass x c = modify x (\<lambda>e. e\<lparr>classes := insert c (classes e)\<rparr>)"

definition removeClass :: "nat \<Rightarrow> string \<Rightarrow> state \<Rightarrow> state" where
  "removeClass x c = modify x (\<lambda>e. e\<lparr>classes := classes e - {c}\<rparr>)"

definition setAttribute :: "nat \<Rightarrow> string \<Rightarrow> string \<Rightarrow> state \<Rightarrow> state" where
  "setAttribute x a v = modify x (\<lambda>e. e\<lparr>attrs := (attrs e)(a \<mapsto> v)\<rparr>)"

definition removeAttribute :: "nat \<Rightarrow> string \<Rightarrow> state \<Rightarrow> state" where
  "removeAttribute x a = modify x (\<lambda>e. e\<lparr>attrs := (attrs e)(a := None)\<rparr>)"

definition remove_node :: "nat \<Rightarrow> state \<Rightarrow> state" where
  "remove_node x = modify x (\<lambda>e. e\<lparr>parent := None\<rparr>)"

definition create :: "string \<Rightarrow> string set \<Rightarrow> (string \<rightharpoonup> string) \<Rightarrow> nat option \<Rightarrow> state \<Rightarrow> nat \<times> state" where
  "create tg cls ats par s =
     (next_id s,
      s\<lparr>elements := (elements s)(next_id s :=
           \<lparr>tag = tg, classes = cls, attrs = ats, parent = par, listeners = []\<rparr>),
        next_id := Suc (next_id s)\<rparr>)"

definition focus :: "nat \<Rightarrow> state \<Rightarrow> state" where
  "focus x s = s\<lparr>focused := Some x\<rparr>"

text \<open>\<^verbatim>\<open>prevent( e, true )\<close>: prevents the default action and stops the propagation.\<close>

definition prevent :: "dom_event \<Rightarrow> dom_event" where
  "prevent e = e\<lparr>defaultPrevented := True, propagationStopped := True\<rparr>"

subsection \<open>The event interface and the controller\<close>

text \<open>
  Modelled from the spec: \<^verbatim>\<open>EventInterface\<close> and \<^verbatim>\<open>Controller.go\<close> are not part of the
  source. \<^verbatim>\<open>bind\<close> adds a listener to an element, \<^verbatim>\<open>unbind\<close> removes the listeners of
  the events named, \<^verbatim>\<open>on\<close> subscribes a function of the component to events of the
  carousel, \<^verbatim>\<open>emit\<close> and \<^verbatim>\<open>go\<close> are recorded in the order of the calls.
\<close>

definition bind :: "nat \<Rightarrow> string \<Rightarrow> nat handler \<Rightarrow> state \<Rightarrow> state" where
  "bind x ev h = modify x (\<lambda>e. e\<lparr>listeners := listeners e @ [(ev, h)]\<rparr>)"

definition unbind :: "nat \<Rightarrow> string list \<Rightarrow> state \<Rightarrow> state" where
  "unbind x evs = modify x (\<lambda>e. e\<lparr>listeners := filter (\<lambda>l. fst l \<notin> set evs) (listeners e)\<rparr>)"

definition on :: "event_name list \<Rightarrow> callback \<Rightarrow> state \<Rightarrow> state" where
  "on evs cb s = s\<lparr>subscriptions := subscriptions s @ map (\<lambda>ev. (ev, cb)) evs\<rparr>"

definition emit :: "event \<Rightarrow> state \<Rightarrow> state" where
  "emit ev s = s\<lparr>emitted := emitted s @ [ev]\<rparr>"

definition go :: "string \<Rightarrow> bool option \<Rightarrow> state \<Rightarrow> state" where
  "go control allowSameIndex s = s\<lparr>go_calls := go_calls s @ [(control, allowSameIndex)]\<rparr>"

subsection \<open>The functions of the component\<close>

text \<open>\<^verbatim>\<open>getAt\<close>, lines 213 to 215.\<close>

definition getAt :: "env \<Rightarrow> state \<Rightarrow> int \<Rightarrow> item option" where
  "getAt en s index = js_index (items s) (toPage en index)"

text \<open>\<^verbatim>\<open>update\<close>, lines 220 to 239. \<^verbatim>\<open>getIndex()\<close> is \<open>getIndex en False\<close>.\<close>

definition update :: "env \<Rightarrow> state \<Rightarrow> state" where
  "update en s =
     (let prev = getAt en s (getIndex en True);
          curr = getAt en s (getIndex en False);
          s1 = (case prev of
                  None \<Rightarrow> s
                | Some it \<Rightarrow>
                    setAttribute (button it) TAB_INDEX ''-1''
                      (removeAttribute (button it) ARIA_SELECTED
                        (removeClass (button it) CLASS_ACTIVE s)));
          s2 = (case curr of
                  None \<Rightarrow> s1
                | Some it \<Rightarrow>
                    setAttribute (button it) TAB_INDEX ''''
                      (setAttribute (button it) ARIA_SELECTED ''true''
                        (addClass (button it) CLASS_ACTIVE s1)))
      in emit (PaginationUpdated (list_elm s2) (items s2) prev curr) s2)"

text \<open>\<^verbatim>\<open>destroy\<close>, lines 116 to 123.\<close>

definition destroy :: "state \<Rightarrow> state" where
  "destroy s =
     (case list_elm s of
        None \<Rightarrow> s
      | Some l \<Rightarrow>
          (fold (\<lambda>it. unbind (button it) [''click'', ''keydown'', ''focus'']) (items s)
             (remove_node l s))
          \<lparr>items := [], list_elm := None\<rparr>)"

text \<open>\<^verbatim>\<open>onClick\<close>, lines 168 to 170.\<close>

definition onClick :: "nat \<Rightarrow> state \<Rightarrow> state" where
  "onClick pg s = go (''>'' @ show_nat pg) (Some True) s"

text \<open>
  \<^verbatim>\<open>onKeydown\<close>, lines 181 to 204. The first component of \<open>keydown_target\<close> is the
  variable \<^verbatim>\<open>page\<close> after the branch (the arrows increment or decrement it), the second
  is \<^verbatim>\<open>nextPage\<close>.
\<close>

definition keydown_target :: "env \<Rightarrow> int \<Rightarrow> int \<Rightarrow> string \<Rightarrow> int \<times> int option" where
  "keydown_target en pg len k =
     (if k = resolve en ''ArrowRight'' then (pg + 1, js_rem (pg + 1) len)
      else if k = resolve en ''ArrowLeft'' then (pg - 1, js_rem (pg - 1 + len) len)
      else if k = ''Home'' then (pg, Some 0)
      else if k = ''End'' then (pg, Some (len - 1))
      else (pg, Some (- 1)))"

definition onKeydown :: "env \<Rightarrow> nat \<Rightarrow> dom_event \<Rightarrow> state \<Rightarrow> dom_event \<times> state" where
  "onKeydown en pg e s =
     (let len = int (length (items s));
          k = normalizeKey en (key e);
          (pg', nextPage) = keydown_target en (int pg) len k
      in case js_index_opt (items s) nextPage of
           None \<Rightarrow> (e, s)
         | Some it \<Rightarrow> (prevent e, go (''>'' @ show_int pg') None (focus (button it) s)))"

text \<open>
  \<^verbatim>\<open>createPagination\<close>, lines 128 to 158. \<open>createItem\<close> is the body of the loop,
  \<open>createItems\<close> the loop; it does not return when the bound is infinite.
\<close>

definition max_pages :: "env \<Rightarrow> jsnum" where
  "max_pages en =
     (if hasFocus en then Num (splide_length en)
      else js_ceil_div (splide_length en) (opt_perPage en))"

definition pagination_parent :: "env \<Rightarrow> nat" where
  "pagination_parent en =
     (case (if opt_pagination en = PStr ''slider'' then elements_slider en else None) of
        Some x \<Rightarrow> x
      | None \<Rightarrow> elements_root en)"

definition createItem :: "env \<Rightarrow> nat \<Rightarrow> state \<Rightarrow> state" where
  "createItem en i s =
     (let (l, s1) = create ''li'' {} Map.empty (list_elm s) s;
          (b, s2) = create ''button'' {classes_page en} [''type'' \<mapsto> ''button''] (Some l) s1;
          controls = getIn_ids en i;
          text = (if \<not> hasFocus en \<and> opt_perPage en > 1 then i18n_pageX en else i18n_slideX en);
          s3 = bind b ''click'' (OnClick i) s2;
          s4 = bind b ''keydown'' (OnKeydown i) s3;
          s5 = setAttribute l ROLE ''none'' s4;
          s6 = setAttribute b ROLE ''tab'' s5;
          s7 = setAttribute b ARIA_CONTROLS (join_space controls) s6;
          s8 = setAttribute b ARIA_LABEL (format_text en text (i + 1)) s7;
          s9 = setAttribute b TAB_INDEX ''-1'' s8
      in s9\<lparr>items := items s9 @ [\<lparr>li = l, button = b, page = i\<rparr>]\<rparr>)"

partial_function (option) createItems :: "env \<Rightarrow> jsnum \<Rightarrow> nat \<Rightarrow> state \<Rightarrow> state option" where
  "createItems en mx i s =
     (if js_lt i mx then createItems en mx (Suc i) (createItem en i s) else Some s)"

definition createList :: "env \<Rightarrow> state \<Rightarrow> state" where
  "createList en s =
     (let (l, s1) = create ''ul'' {classes_pagination en} Map.empty (Some (pagination_parent en)) s;
          s2 = s1\<lparr>list_elm := Some l\<rparr>;
          s3 = bind l ''focusin'' (AddClass l CLASS_FOCUS) s2;
          s4 = bind l ''focusout'' (RemoveClass l CLASS_FOCUS) s3;
          s5 = setAttribute l ROLE ''tablist'' s4
      in setAttribute l ARIA_LABEL (i18n_select en) s5)"

definition createPagination :: "env \<Rightarrow> state \<Rightarrow> state option" where
  "createPagination en s = createItems en (max_pages en) 0 (createList en s)"

text \<open>\<^verbatim>\<open>init\<close>, lines 103 to 111, and \<^verbatim>\<open>mount\<close>, lines 94 to 98.\<close>

definition init :: "env \<Rightarrow> state \<Rightarrow> state option" where
  "init en s =
     (let s1 = destroy s
      in if truthy (opt_pagination en) \<and> isEnough en then
           (case createPagination en s1 of
              None \<Rightarrow> None
            | Some s2 \<Rightarrow>
                Some (update en
                  (emit (PaginationMounted (list_elm s2) (items s2) (getAt en s2 (splide_index en))) s2)))
         else Some s1)"

definition mount :: "env \<Rightarrow> state \<Rightarrow> state option" where
  "mount en s =
     (case init en s of
        None \<Rightarrow> None
      | Some s1 \<Rightarrow>
          Some (on [EVENT_MOVE, EVENT_SCROLLED] CbUpdate (on [EVENT_UPDATED, EVENT_REFRESH] CbInit s1)))"

subsection \<open>Events of the document and of the carousel\<close>

text \<open>
  A listener that runs after \<^verbatim>\<open>prevent( e, true )\<close> has stopped the propagation is
  skipped. An event of the document runs the listeners bound to its target for that
  event, in the order of binding.
\<close>

fun call_handler :: "env \<Rightarrow> nat handler \<Rightarrow> dom_event \<times> state \<Rightarrow> dom_event \<times> state" where
  "call_handler en h (e, s) =
     (if propagationStopped e then (e, s)
      else case h of
        AddClass x c \<Rightarrow> (e, addClass x c s)
      | RemoveClass x c \<Rightarrow> (e, removeClass x c s)
      | OnClick p \<Rightarrow> (e, onClick p s)
      | OnKeydown p \<Rightarrow> onKeydown en p e s)"

definition dispatch :: "env \<Rightarrow> string \<Rightarrow> string \<Rightarrow> nat \<Rightarrow> state \<Rightarrow> dom_event \<times> state" where
  "dispatch en ev k x s =
     fold (call_handler en)
       (map snd (filter (\<lambda>l. fst l = ev) (listeners (elements s x))))
       (\<lparr>key = k, defaultPrevented = False, propagationStopped = False\<rparr>, s)"

text \<open>An event of the carousel runs the functions subscribed to it with \<^verbatim>\<open>on\<close>.\<close>

fun run_callback :: "env \<Rightarrow> callback \<Rightarrow> state \<Rightarrow> state option" where
  "run_callback en CbInit s = init en s"
| "run_callback en CbUpdate s = Some (update en s)"

fun run_callbacks :: "env \<Rightarrow> callback list \<Rightarrow> state \<Rightarrow> state option" where
  "run_callbacks en [] s = Some s"
| "run_callbacks en (c # cs) s =
     (case run_callback en c s of None \<Rightarrow> None | Some s' \<Rightarrow> run_callbacks en cs s')"

definition fire :: "env \<Rightarrow> event_name \<Rightarrow> state \<Rightarrow> state option" where
  "fire en ev s = run_callbacks en (map snd (filter (\<lambda>p. fst p = ev) (subscriptions s))) s"

subsection \<open>Reachable states\<close>

text \<open>
  Before the component is mounted it has no items, no list, and has subscribed to and
  sent nothing. The document around it is arbitrary.
\<close>

definition initial :: "state \<Rightarrow> bool" where
  "initial s \<longleftrightarrow>
     items s = [] \<and> list_elm s = None \<and> subscriptions s = [] \<and> emitted s = [] \<and> go_calls s = []"

text \<open>
  The states the four operations of the component lead to, whatever the collaborators
  answer at each call, with the events that the document sends to the buttons of the
  items and to the list in between.
\<close>

inductive reachable :: "state \<Rightarrow> bool" where
  by_start: "initial s \<Longrightarrow> reachable s"
| by_mount: "reachable s \<Longrightarrow> mount en s = Some s' \<Longrightarrow> reachable s'"
| by_init: "reachable s \<Longrightarrow> init en s = Some s' \<Longrightarrow> reachable s'"
| by_update: "reachable s \<Longrightarrow> reachable (update en s)"
| by_destroy: "reachable s \<Longrightarrow> reachable (destroy s)"
| by_button_event:
    "reachable s \<Longrightarrow> it \<in> set (items s) \<Longrightarrow> dispatch en ev k (button it) s = (e, s')
     \<Longrightarrow> reachable s'"
| by_list_event:
    "reachable s \<Longrightarrow> list_elm s = Some l \<Longrightarrow> dispatch en ev k l s = (e, s')
     \<Longrightarrow> reachable s'"

text \<open>A button is active when it has the active class and is marked as selected.\<close>

definition is_active :: "state \<Rightarrow> nat \<Rightarrow> bool" where
  "is_active s b \<longleftrightarrow>
     CLASS_ACTIVE \<in> classes (elements s b) \<and> attrs (elements s b) ARIA_SELECTED = Some ''true''"

text \<open>
  \<^verbatim>\<open>update\<close> turns off the button of the previous item and lights that of the current
  one, and touches no other. The controller is in step with the pagination at an
  \<^verbatim>\<open>update\<close> that finds a current item when no button is active but those of its
  previous and current items. Nothing is asked of an \<^verbatim>\<open>update\<close> that finds no current
  item: it lights no button.
\<close>

definition in_step :: "env \<Rightarrow> state \<Rightarrow> bool" where
  "in_step en s \<longleftrightarrow>
     (getAt en s (getIndex en False) \<noteq> None \<longrightarrow>
      (\<forall>it \<in> set (items s). is_active s (button it) \<longrightarrow>
         getAt en s (getIndex en True) = Some it \<or> getAt en s (getIndex en False) = Some it))"

text \<open>
  The reachable states in which every \<^verbatim>\<open>update\<close> since the last \<^verbatim>\<open>mount\<close>, \<^verbatim>\<open>init\<close> or
  \<^verbatim>\<open>destroy\<close> was called with the controller in step. \<^verbatim>\<open>mount\<close>, \<^verbatim>\<open>init\<close> and
  \<^verbatim>\<open>destroy\<close> start afresh from any reachable state.
\<close>

inductive reachable_in_step :: "state \<Rightarrow> bool" where
  step_start: "initial s \<Longrightarrow> reachable_in_step s"
| step_mount: "reachable s \<Longrightarrow> mount en s = Some s' \<Longrightarrow> reachable_in_step s'"
| step_init: "reachable s \<Longrightarrow> init en s = Some s' \<Longrightarrow> reachable_in_step s'"
| step_update: "reachable_in_step s \<Longrightarrow> in_step en s \<Longrightarrow> reachable_in_step (update en s)"
| step_destroy: "reachable s \<Longrightarrow> reachable_in_step (destroy s)"
| step_button_event:
    "reachable_in_step s \<Longrightarrow> it \<in> set (items s) \<Longrightarrow> dispatch en ev k (button it) s = (e, s')
     \<Longrightarrow> reachable_in_step s'"
| step_list_event:
    "reachable_in_step s \<Longrightarrow> list_elm s = Some l \<Longrightarrow> dispatch en ev k l s = (e, s')
     \<Longrightarrow> reachable_in_step s'"

subsection \<open>The pagination up to the identity of its elements\<close>

text \<open>
  Two runs of \<^verbatim>\<open>createPagination\<close> make different elements. The view of a state
  describes the list and the items without the identities: a reference held by an
  element of the pagination (its parent, the element a listener has captured) is named
  by its place in the pagination.
\<close>

datatype ref = Own_list | Own_li | Other nat

definition local_ref :: "nat option \<Rightarrow> nat option \<Rightarrow> nat \<Rightarrow> ref" where
  "local_ref l i x = (if Some x = l then Own_list else if Some x = i then Own_li else Other x)"

type_synonym element_view =
  "string \<times> string set \<times> (string \<rightharpoonup> string) \<times> (string \<times> ref handler) list"

definition view_element :: "(nat \<Rightarrow> ref) \<Rightarrow> element \<Rightarrow> element_view" where
  "view_element r e =
     (tag e, classes e, attrs e, map (\<lambda>l. (fst l, map_handler r (snd l))) (listeners e))"

definition list_view :: "state \<Rightarrow> nat \<Rightarrow> element_view \<times> nat option" where
  "list_view s l = (view_element (local_ref (Some l) None) (elements s l), parent (elements s l))"

definition item_view :: "state \<Rightarrow> item \<Rightarrow> nat \<times> (element_view \<times> ref option) \<times> (element_view \<times> ref option)" where
  "item_view s it =
     (let r = local_ref (list_elm s) (Some (li it))
      in (page it,
          (view_element r (elements s (li it)), map_option r (parent (elements s (li it)))),
          (view_element r (elements s (button it)), map_option r (parent (elements s (button it))))))"

definition view ::
  "state \<Rightarrow> (element_view \<times> nat option) option
     \<times> (nat \<times> (element_view \<times> ref option) \<times> (element_view \<times> ref option)) list" where
  "view s = (map_option (list_view s) (list_elm s), map (item_view s) (items s))"

subsection \<open>What the creation makes, written out\<close>

definition list_elem :: "env \<Rightarrow> nat \<Rightarrow> element" where
  "list_elem en l =
     \<lparr>tag = ''ul'', classes = {classes_pagination en},
      attrs = [ROLE \<mapsto> ''tablist'', ARIA_LABEL \<mapsto> i18n_select en],
      parent = Some (pagination_parent en),
      listeners = [(''focusin'', AddClass l CLASS_FOCUS), (''focusout'', RemoveClass l CLASS_FOCUS)]\<rparr>"

definition li_elem :: "nat option \<Rightarrow> element" where
  "li_elem l =
     \<lparr>tag = ''li'', classes = {}, attrs = [ROLE \<mapsto> ''none''], parent = l, listeners = []\<rparr>"

definition button_elem :: "env \<Rightarrow> nat \<Rightarrow> nat \<Rightarrow> element" where
  "button_elem en i l =
     \<lparr>tag = ''button'', classes = {classes_page en},
      attrs = [''type'' \<mapsto> ''button'', ROLE \<mapsto> ''tab'',
               ARIA_CONTROLS \<mapsto> join_space (getIn_ids en i),
               ARIA_LABEL \<mapsto> format_text en
                 (if \<not> hasFocus en \<and> opt_perPage en > 1 then i18n_pageX en else i18n_slideX en)
                 (i + 1),
               TAB_INDEX \<mapsto> ''-1''],
      parent = Some l,
      listeners = [(''click'', OnClick i), (''keydown'', OnKeydown i)]\<rparr>"

definition created_items :: "nat \<Rightarrow> nat \<Rightarrow> item list" where
  "created_items base m =
     map (\<lambda>j. \<lparr>li = base + 2 * j, button = Suc (base + 2 * j), page = j\<rparr>) [0..<m]"

definition off :: "element \<Rightarrow> element" where
  "off e = e\<lparr>classes := classes e - {CLASS_ACTIVE},
             attrs := (attrs e)(ARIA_SELECTED := None, TAB_INDEX \<mapsto> ''-1'')\<rparr>"

definition lit :: "element \<Rightarrow> element" where
  "lit e = e\<lparr>classes := insert CLASS_ACTIVE (classes e),
             attrs := (attrs e)(ARIA_SELECTED \<mapsto> ''true'', TAB_INDEX \<mapsto> '''')\<rparr>"

text \<open>The state that \<^verbatim>\<open>createPagination\<close> leaves after \<^verbatim>\<open>destroy\<close>, when the loop makes \<open>m\<close> turns.\<close>

definition built :: "env \<Rightarrow> state \<Rightarrow> nat \<Rightarrow> state" where
  "built en s m = fold (createItem en) [0..<m] (createList en (destroy s))"

text \<open>The number of turns of the creation loop, when it ends.\<close>

definition page_count :: "env \<Rightarrow> nat option" where
  "page_count en = (case max_pages en of Num m \<Rightarrow> Some m | NaN \<Rightarrow> Some 0 | Infinity \<Rightarrow> None)"

text \<open>
  The invariant of the reachable states: the items are those of one run of the creation
  loop after the list, the list has its two listeners, each button has its two listeners
  and is either off or lit.
\<close>

definition button_ok :: "state \<Rightarrow> nat \<Rightarrow> nat \<Rightarrow> bool" where
  "button_ok s i b \<longleftrightarrow>
     listeners (elements s b) = [(''click'', OnClick i), (''keydown'', OnKeydown i)]
     \<and> (attrs (elements s b) ARIA_SELECTED = None \<and> attrs (elements s b) TAB_INDEX = Some ''-1''
        \<or> attrs (elements s b) ARIA_SELECTED = Some ''true'' \<and> attrs (elements s b) TAB_INDEX = Some ''''
          \<and> CLASS_ACTIVE \<in> classes (elements s b))"

definition well_formed :: "state \<Rightarrow> bool" where
  "well_formed s \<longleftrightarrow>
     (case list_elm s of
        None \<Rightarrow> items s = []
      | Some l \<Rightarrow>
          items s = created_items (Suc l) (length (items s))
          \<and> listeners (elements s l) =
               [(''focusin'', AddClass l CLASS_FOCUS), (''focusout'', RemoveClass l CLASS_FOCUS)]
          \<and> (\<forall>i < length (items s). button_ok s i (Suc (Suc l + 2 * i))))"

subsection \<open>A carousel of three slides\<close>

text \<open>
  A concrete carousel on which the statements below are instantiated: three slides, one
  per page, the pagination enabled, the controller at index 0, in a document where only
  the root exists (\<open>unmounted\<close>). \<open>paginated3\<close> is the state after \<^verbatim>\<open>init\<close>. \<open>moved p c\<close>
  is the same carousel when the controller answers \<open>p\<close> as previous and \<open>c\<close> as current
  index, \<open>disabled3\<close> the carousel with the pagination switched off, \<open>stalled\<close> the one
  with \<^verbatim>\<open>perPage\<close> 0.
\<close>

definition blank :: element where
  "blank = \<lparr>tag = ''div'', classes = {}, attrs = Map.empty, parent = None, listeners = []\<rparr>"

definition unmounted :: state where
  "unmounted =
     \<lparr>items = [], list_elm = None, elements = (\<lambda>x. blank), next_id = 1, focused = None,
      emitted = [], go_calls = [], subscriptions = []\<rparr>"

definition carousel3 :: env where
  "carousel3 =
     \<lparr>opt_pagination = PBool True, opt_perPage = 1,
      classes_pagination = ''splide__pagination'', classes_page = ''splide__pagination__page'',
      i18n_select = ''Select a slide to show'', i18n_pageX = ''Go to page %s'',
      i18n_slideX = ''Go to slide %s'',
      splide_length = 3, splide_index = 0, isEnough = True, hasFocus = False,
      getIndex = (\<lambda>prev. 0), toPage = (\<lambda>i. i), getIn_ids = (\<lambda>i. []),
      resolve = (\<lambda>k. k), normalizeKey = (\<lambda>k. k), format_text = (\<lambda>t n. t),
      elements_root = 0, elements_slider = None\<rparr>"

definition moved :: "int \<Rightarrow> int \<Rightarrow> env" where
  "moved p c = carousel3\<lparr>getIndex := (\<lambda>prev. if prev then p else c)\<rparr>"

definition paginated3 :: state where
  "paginated3 = the (init carousel3 unmounted)"

definition disabled3 :: env where
  "disabled3 = carousel3\<lparr>opt_pagination := PBool False\<rparr>"

definition stalled :: env where
  "stalled = carousel3\<lparr>opt_perPage := 0\<rparr>"

section \<open>Properties\<close>

subsection \<open>The helpers and the state\<close>

lemma modify_fields [simp]:
  "items (modify x f s) = items s"
  "list_elm (modify x f s) = list_elm s"
  "next_id (modify x f s) = next_id s"
  "focused (modify x f s) = focused s"
  "emitted (modify x f s) = emitted s"
  "go_calls (modify x f s) = go_calls s"
  "subscriptions (modify x f s) = subscriptions s"
  by (simp_all add: modify_def)

lemma modify_elements [simp]:
  "elements (modify x f s) y = (if y = x then f (elements s x) else elements s y)"
  by (simp add: modify_def)

lemma modify_modify: "modify x f (modify x g s) = modify x (f \<circ> g) s"
  by (simp add: modify_def)

lemma deactivate_eq:
  "setAttribute b TAB_INDEX ''-1'' (removeAttribute b ARIA_SELECTED (removeClass b CLASS_ACTIVE s))
     = modify b off s"
  by (simp add: setAttribute_def removeAttribute_def removeClass_def
      modify_modify comp_def off_def[abs_def])

lemma activate_eq:
  "setAttribute b TAB_INDEX '''' (setAttribute b ARIA_SELECTED ''true'' (addClass b CLASS_ACTIVE s))
     = modify b lit s"
  by (simp add: setAttribute_def addClass_def modify_modify comp_def lit_def[abs_def])

lemma emit_fields [simp]:
  "items (emit ev s) = items s"
  "list_elm (emit ev s) = list_elm s"
  "elements (emit ev s) = elements s"
  "next_id (emit ev s) = next_id s"
  "focused (emit ev s) = focused s"
  "emitted (emit ev s) = emitted s @ [ev]"
  "go_calls (emit ev s) = go_calls s"
  "subscriptions (emit ev s) = subscriptions s"
  by (simp_all add: emit_def)

lemma on_fields [simp]:
  "items (on evs cb s) = items s"
  "list_elm (on evs cb s) = list_elm s"
  "elements (on evs cb s) = elements s"
  "next_id (on evs cb s) = next_id s"
  "focused (on evs cb s) = focused s"
  "emitted (on evs cb s) = emitted s"
  "go_calls (on evs cb s) = go_calls s"
  "subscriptions (on evs cb s) = subscriptions s @ map (\<lambda>ev. (ev, cb)) evs"
  by (simp_all add: on_def)

lemma getAt_items: "items s = items t \<Longrightarrow> getAt en s k = getAt en t k"
  by (simp add: getAt_def)

lemma getAt_modify [simp]: "getAt en (modify x f s) k = getAt en s k"
  by (simp add: getAt_def)

lemma getAt_emit [simp]: "getAt en (emit ev s) k = getAt en s k"
  by (simp add: getAt_def)

lemma update_fields [simp]:
  "items (update en s) = items s"
  "list_elm (update en s) = list_elm s"
  "next_id (update en s) = next_id s"
  "focused (update en s) = focused s"
  "go_calls (update en s) = go_calls s"
  "subscriptions (update en s) = subscriptions s"
  by (simp_all add: update_def Let_def deactivate_eq activate_eq split: option.split)

lemma update_emitted:
  "emitted (update en s) =
     emitted s @ [PaginationUpdated (list_elm s) (items s)
                    (getAt en s (getIndex en True)) (getAt en s (getIndex en False))]"
  by (simp add: update_def Let_def deactivate_eq activate_eq split: option.split)

lemma update_elements:
  "elements (update en s) x =
     (let e1 = (if map_option button (getAt en s (getIndex en True)) = Some x
                then off (elements s x) else elements s x)
      in if map_option button (getAt en s (getIndex en False)) = Some x then lit e1 else e1)"
  by (simp add: update_def Let_def deactivate_eq activate_eq split: option.split)

lemma getAt_update [simp]: "getAt en' (update en s) k = getAt en' s k"
  by (simp add: getAt_def)

lemma fold_unbind_fields [simp]:
  "items (fold (\<lambda>it. unbind (button it) evs) its s) = items s"
  "list_elm (fold (\<lambda>it. unbind (button it) evs) its s) = list_elm s"
  "next_id (fold (\<lambda>it. unbind (button it) evs) its s) = next_id s"
  "focused (fold (\<lambda>it. unbind (button it) evs) its s) = focused s"
  "emitted (fold (\<lambda>it. unbind (button it) evs) its s) = emitted s"
  "go_calls (fold (\<lambda>it. unbind (button it) evs) its s) = go_calls s"
  "subscriptions (fold (\<lambda>it. unbind (button it) evs) its s) = subscriptions s"
  by (induction its arbitrary: s; simp add: unbind_def)+

lemma fold_unbind_elements:
  "elements (fold (\<lambda>it. unbind (button it) evs) its s) x =
     (if x \<in> button ` set its
      then (elements s x)\<lparr>listeners := filter (\<lambda>l. fst l \<notin> set evs) (listeners (elements s x))\<rparr>
      else elements s x)"
  by (induction its arbitrary: s) (auto simp add: unbind_def)

lemma destroy_None: "list_elm s = None \<Longrightarrow> destroy s = s"
  by (simp add: destroy_def)

lemma destroy_fields [simp]:
  "list_elm (destroy s) = None"
  "next_id (destroy s) = next_id s"
  "focused (destroy s) = focused s"
  "emitted (destroy s) = emitted s"
  "go_calls (destroy s) = go_calls s"
  "subscriptions (destroy s) = subscriptions s"
  by (simp_all add: destroy_def remove_node_def split: option.split)

lemma destroy_items: "items (destroy s) = (if list_elm s = None then items s else [])"
  by (simp add: destroy_def split: option.split)

lemma destroy_elements:
  "list_elm s = Some l \<Longrightarrow>
   elements (destroy s) x =
     (let e = (if x = l then (elements s x)\<lparr>parent := None\<rparr> else elements s x)
      in if x \<in> button ` set (items s)
         then e\<lparr>listeners := filter (\<lambda>l. fst l \<notin> {''click'', ''keydown'', ''focus''}) (listeners e)\<rparr>
         else e)"
  by (simp add: destroy_def fold_unbind_elements remove_node_def Let_def)

lemma createList_eq:
  "createList en s =
     s\<lparr>elements := (elements s)(next_id s := list_elem en (next_id s)),
       next_id := Suc (next_id s), list_elm := Some (next_id s)\<rparr>"
  by (simp add: createList_def create_def bind_def setAttribute_def modify_def list_elem_def Let_def)

lemma createItem_eq:
  "createItem en i s =
     s\<lparr>elements := (elements s)(next_id s := li_elem (list_elm s),
                                 Suc (next_id s) := button_elem en i (next_id s)),
       next_id := Suc (Suc (next_id s)),
       items := items s @ [\<lparr>li = next_id s, button = Suc (next_id s), page = i\<rparr>]\<rparr>"
  by (simp add: createItem_def create_def bind_def setAttribute_def modify_def li_elem_def
      button_elem_def Let_def fun_upd_twist)

lemma createItems_Num:
  "createItems en (Num m) i s = Some (fold (createItem en) [i..<m] s)"
proof (induction "m - i" arbitrary: i s)
  case 0
  then show ?case by (subst createItems.simps) simp
next
  case (Suc k)
  then have "i < m" and "k = m - Suc i" by simp_all
  then show ?case
    using Suc.hyps(1)[of "Suc i" "createItem en i s"]
    by (subst createItems.simps) (simp add: upt_rec[of i m])
qed

lemma createItems_NaN: "createItems en NaN i s = Some s"
  by (subst createItems.simps) simp

lemma createItems_Some_bound:
  assumes "createItems en mx i s = Some y"
  shows "mx \<noteq> Infinity"
  by (rule createItems.raw_induct[where P = "\<lambda>en mx i s y. mx \<noteq> Infinity", OF _ assms])
     (auto split: if_splits)

lemma createItems_Infinity: "createItems en Infinity i s = None"
  using createItems_Some_bound[of en Infinity i s] by (cases "createItems en Infinity i s") auto

lemma createPagination_eq:
  "createPagination en s =
     map_option (\<lambda>m. fold (createItem en) [0..<m] (createList en s)) (page_count en)"
  by (cases "max_pages en")
     (simp_all add: createPagination_def page_count_def createItems_Num createItems_NaN
        createItems_Infinity)

lemma createItem_fields [simp]:
  "list_elm (createItem en i s) = list_elm s"
  "next_id (createItem en i s) = Suc (Suc (next_id s))"
  "focused (createItem en i s) = focused s"
  "emitted (createItem en i s) = emitted s"
  "go_calls (createItem en i s) = go_calls s"
  "subscriptions (createItem en i s) = subscriptions s"
  "items (createItem en i s) = items s @ [\<lparr>li = next_id s, button = Suc (next_id s), page = i\<rparr>]"
  by (simp_all add: createItem_eq)

lemma createItem_elements:
  "elements (createItem en i s) x =
     (if x = Suc (next_id s) then button_elem en i (next_id s)
      else if x = next_id s then li_elem (list_elm s) else elements s x)"
  by (simp add: createItem_eq)

lemma fold_createItem_fields [simp]:
  "list_elm (fold (createItem en) [0..<m] s) = list_elm s"
  "next_id (fold (createItem en) [0..<m] s) = next_id s + 2 * m"
  "focused (fold (createItem en) [0..<m] s) = focused s"
  "emitted (fold (createItem en) [0..<m] s) = emitted s"
  "go_calls (fold (createItem en) [0..<m] s) = go_calls s"
  "subscriptions (fold (createItem en) [0..<m] s) = subscriptions s"
  by (induction m; simp)+

lemma fold_createItem_items:
  "items (fold (createItem en) [0..<m] s) = items s @ created_items (next_id s) m"
  by (induction m) (simp_all add: created_items_def)

lemma fold_createItem_old:
  "x < next_id s \<Longrightarrow> elements (fold (createItem en) [0..<m] s) x = elements s x"
  by (induction m) (simp_all add: createItem_elements)

lemma fold_createItem_li:
  "j < m \<Longrightarrow> elements (fold (createItem en) [0..<m] s) (next_id s + 2 * j) = li_elem (list_elm s)"
proof (induction m)
  case 0
  then show ?case by simp
next
  case (Suc m)
  show ?case
  proof (cases "j = m")
    case True
    then show ?thesis by (simp add: createItem_elements)
  next
    case False
    with Suc have "j < m" by simp
    then show ?thesis using Suc.IH by (simp add: createItem_elements)
  qed
qed

lemma fold_createItem_button:
  "j < m \<Longrightarrow>
   elements (fold (createItem en) [0..<m] s) (Suc (next_id s + 2 * j)) =
     button_elem en j (next_id s + 2 * j)"
proof (induction m)
  case 0
  then show ?case by simp
next
  case (Suc m)
  show ?case
  proof (cases "j = m")
    case True
    then show ?thesis by (simp add: createItem_elements)
  next
    case False
    with Suc have "j < m" by simp
    then show ?thesis using Suc.IH by (simp add: createItem_elements)
  qed
qed

subsection \<open>The state that \<^verbatim>\<open>init\<close> leaves\<close>

lemma init_eq:
  "init en s =
     (if truthy (opt_pagination en) \<and> isEnough en
      then map_option
             (\<lambda>m. update en (emit (PaginationMounted (list_elm (built en s m)) (items (built en s m))
                                 (getAt en (built en s m) (splide_index en))) (built en s m)))
             (page_count en)
      else Some (destroy s))"
  by (cases "page_count en") (simp_all add: init_def createPagination_eq built_def Let_def)

lemma wf_items_destroy: "well_formed s \<Longrightarrow> items (destroy s) = []"
  by (auto simp add: well_formed_def destroy_items split: option.splits)

lemma built_fields [simp]:
  "list_elm (built en s m) = Some (next_id s)"
  "next_id (built en s m) = Suc (next_id s + 2 * m)"
  "focused (built en s m) = focused s"
  "emitted (built en s m) = emitted s"
  "go_calls (built en s m) = go_calls s"
  "subscriptions (built en s m) = subscriptions s"
  by (simp_all add: built_def createList_eq)

lemma built_items:
  "items (built en s m) = items (destroy s) @ created_items (Suc (next_id s)) m"
  by (simp add: built_def fold_createItem_items createList_eq)

lemma built_list: "elements (built en s m) (next_id s) = list_elem en (next_id s)"
  by (simp add: built_def fold_createItem_old createList_eq)

lemma built_old: "x < next_id s \<Longrightarrow> elements (built en s m) x = elements (destroy s) x"
  by (simp add: built_def fold_createItem_old createList_eq)

lemma built_li:
  "j < m \<Longrightarrow> elements (built en s m) (Suc (next_id s + 2 * j)) = li_elem (Some (next_id s))"
  using fold_createItem_li[of j m en "createList en (destroy s)"]
  by (simp add: built_def createList_eq)

lemma built_button:
  "j < m \<Longrightarrow>
   elements (built en s m) (Suc (Suc (next_id s + 2 * j))) = button_elem en j (Suc (next_id s + 2 * j))"
  using fold_createItem_button[of j m en "createList en (destroy s)"]
  by (simp add: built_def createList_eq)

lemma length_created_items [simp]: "length (created_items b m) = m"
  by (simp add: created_items_def)

lemma nth_created_items [simp]:
  "j < m \<Longrightarrow> created_items b m ! j = \<lparr>li = b + 2 * j, button = Suc (b + 2 * j), page = j\<rparr>"
  by (simp add: created_items_def)

lemma js_index_created_items:
  "js_index (created_items b m) k =
     (if 0 \<le> k \<and> k < int m
      then Some \<lparr>li = b + 2 * nat k, button = Suc (b + 2 * nat k), page = nat k\<rparr> else None)"
proof (cases "0 \<le> k \<and> k < int m")
  case True
  then have "nat k < m" by linarith
  with True show ?thesis by (simp add: js_index_def)
next
  case False
  then show ?thesis by (auto simp add: js_index_def)
qed

lemma button_of_created:
  "j < m \<Longrightarrow>
   (map_option button (js_index (created_items b m) k) = Some (Suc (b + 2 * j))) = (k = int j)"
  by (auto simp add: js_index_created_items)

lemma not_button_of_created_li:
  "map_option button (js_index (created_items b m) k) \<noteq> Some (b + 2 * j)"
  by (auto simp add: js_index_created_items) presburger

lemma not_button_of_created_below:
  "x < b \<Longrightarrow> map_option button (js_index (created_items b m) k) \<noteq> Some x"
  by (auto simp add: js_index_created_items)

lemma attr_names_distinct [simp]:
  "ARIA_SELECTED \<noteq> TAB_INDEX" "TAB_INDEX \<noteq> ARIA_SELECTED"
  "ROLE \<noteq> TAB_INDEX" "ROLE \<noteq> ARIA_SELECTED" "ROLE \<noteq> ARIA_LABEL" "ROLE \<noteq> ARIA_CONTROLS"
  "ARIA_LABEL \<noteq> TAB_INDEX" "ARIA_LABEL \<noteq> ARIA_SELECTED" "ARIA_LABEL \<noteq> ROLE"
  "ARIA_CONTROLS \<noteq> TAB_INDEX" "ARIA_CONTROLS \<noteq> ARIA_SELECTED" "ARIA_CONTROLS \<noteq> ARIA_LABEL"
  "TAB_INDEX \<noteq> ROLE" "TAB_INDEX \<noteq> ARIA_LABEL" "TAB_INDEX \<noteq> ARIA_CONTROLS"
  "ARIA_SELECTED \<noteq> ROLE" "ARIA_SELECTED \<noteq> ARIA_LABEL" "ARIA_SELECTED \<noteq> ARIA_CONTROLS"
  "''type'' \<noteq> ROLE" "''type'' \<noteq> ARIA_LABEL" "''type'' \<noteq> ARIA_CONTROLS"
  "''type'' \<noteq> TAB_INDEX" "''type'' \<noteq> ARIA_SELECTED"
  "ROLE \<noteq> ''type''" "ARIA_LABEL \<noteq> ''type''" "ARIA_CONTROLS \<noteq> ''type''"
  "TAB_INDEX \<noteq> ''type''" "ARIA_SELECTED \<noteq> ''type''"
  unfolding ROLE_def ARIA_LABEL_def ARIA_SELECTED_def ARIA_CONTROLS_def TAB_INDEX_def
  by simp_all

lemma off_simps [simp]:
  "tag (off e) = tag e" "parent (off e) = parent e" "listeners (off e) = listeners e"
  "classes (off e) = classes e - {CLASS_ACTIVE}"
  "attrs (off e) a = (if a = TAB_INDEX then Some ''-1'' else if a = ARIA_SELECTED then None else attrs e a)"
  by (simp_all add: off_def)

lemma lit_simps [simp]:
  "tag (lit e) = tag e" "parent (lit e) = parent e" "listeners (lit e) = listeners e"
  "classes (lit e) = insert CLASS_ACTIVE (classes e)"
  "attrs (lit e) a = (if a = TAB_INDEX then Some '''' else if a = ARIA_SELECTED then Some ''true'' else attrs e a)"
  by (simp_all add: lit_def)

lemma button_elem_simps [simp]:
  "tag (button_elem en i l) = ''button''"
  "parent (button_elem en i l) = Some l"
  "listeners (button_elem en i l) = [(''click'', OnClick i), (''keydown'', OnKeydown i)]"
  "classes (button_elem en i l) = {classes_page en}"
  "attrs (button_elem en i l) TAB_INDEX = Some ''-1''"
  "attrs (button_elem en i l) ARIA_SELECTED = None"
  "attrs (button_elem en i l) ROLE = Some ''tab''"
  "attrs (button_elem en i l) ''type'' = Some ''button''"
  by (simp_all add: button_elem_def)

lemma li_elem_simps [simp]:
  "tag (li_elem l) = ''li''" "parent (li_elem l) = l" "listeners (li_elem l) = []"
  "classes (li_elem l) = {}" "attrs (li_elem l) ROLE = Some ''none''"
  by (simp_all add: li_elem_def)

lemma list_elem_simps [simp]:
  "tag (list_elem en l) = ''ul''" "parent (list_elem en l) = Some (pagination_parent en)"
  "listeners (list_elem en l) =
     [(''focusin'', AddClass l CLASS_FOCUS), (''focusout'', RemoveClass l CLASS_FOCUS)]"
  "classes (list_elem en l) = {classes_pagination en}"
  "attrs (list_elem en l) ROLE = Some ''tablist''"
  "attrs (list_elem en l) ARIA_LABEL = Some (i18n_select en)"
  by (simp_all add: list_elem_def)

lemma init_disabled: "\<not> (truthy (opt_pagination en) \<and> isEnough en) \<Longrightarrow> init en s = Some (destroy s)"
  by (auto simp add: init_eq)

lemma init_returns:
  "truthy (opt_pagination en) \<Longrightarrow> isEnough en \<Longrightarrow> page_count en = Some m \<Longrightarrow> \<exists>s'. init en s = Some s'"
  by (simp add: init_eq)

lemma init_post:
  assumes "well_formed s" "truthy (opt_pagination en)" "isEnough en" "init en s = Some s'"
  shows "\<exists>m. page_count en = Some m
     \<and> list_elm s' = Some (next_id s)
     \<and> items s' = created_items (Suc (next_id s)) m
     \<and> next_id s' = Suc (next_id s + 2 * m)
     \<and> elements s' (next_id s) = list_elem en (next_id s)
     \<and> (\<forall>j<m. elements s' (Suc (next_id s + 2 * j)) = li_elem (Some (next_id s)))
     \<and> (\<forall>j<m. elements s' (Suc (Suc (next_id s + 2 * j))) =
           (let e = button_elem en j (Suc (next_id s + 2 * j));
                e1 = (if toPage en (getIndex en True) = int j then off e else e)
            in if toPage en (getIndex en False) = int j then lit e1 else e1))
     \<and> (\<forall>x<next_id s. elements s' x = elements (destroy s) x)
     \<and> focused s' = focused s \<and> go_calls s' = go_calls s \<and> subscriptions s' = subscriptions s"
proof -
  from assms obtain m where m: "page_count en = Some m"
    and s': "s' = update en (emit (PaginationMounted (list_elm (built en s m)) (items (built en s m))
                 (getAt en (built en s m) (splide_index en))) (built en s m))"
    by (auto simp add: init_eq)
  have it: "items (built en s m) = created_items (Suc (next_id s)) m"
    using assms(1) by (simp add: built_items wf_items_destroy)
  have "list_elm s' = Some (next_id s)" "items s' = created_items (Suc (next_id s)) m"
    "next_id s' = Suc (next_id s + 2 * m)"
    "focused s' = focused s" "go_calls s' = go_calls s" "subscriptions s' = subscriptions s"
    by (simp_all add: s' it)
  moreover have "elements s' (next_id s) = list_elem en (next_id s)"
    by (simp add: s' update_elements getAt_def it not_button_of_created_below built_list del: map_option_eq_Some)
  moreover have "\<forall>j<m. elements s' (Suc (next_id s + 2 * j)) = li_elem (Some (next_id s))"
    using not_button_of_created_li[of "Suc (next_id s)" m]
    by (simp add: s' update_elements getAt_def it built_li del: map_option_eq_Some)
  moreover have "\<forall>j<m. elements s' (Suc (Suc (next_id s + 2 * j))) =
           (let e = button_elem en j (Suc (next_id s + 2 * j));
                e1 = (if toPage en (getIndex en True) = int j then off e else e)
            in if toPage en (getIndex en False) = int j then lit e1 else e1)"
    using button_of_created[of _ m "Suc (next_id s)"]
    by (simp add: s' update_elements getAt_def it built_button Let_def del: map_option_eq_Some)
  moreover have "\<forall>x<next_id s. elements s' x = elements (destroy s) x"
    by (simp add: s' update_elements getAt_def it not_button_of_created_below built_old del: map_option_eq_Some)
  ultimately show ?thesis using m by simp
qed

subsection \<open>The invariant of the reachable states\<close>

lemma wf_initial: "initial s \<Longrightarrow> well_formed s"
  by (simp add: initial_def well_formed_def)

lemma wf_destroy: "well_formed s \<Longrightarrow> well_formed (destroy s)"
  by (simp add: well_formed_def wf_items_destroy)

lemma button_ok_update: "button_ok s i b \<Longrightarrow> button_ok (update en s) i b"
  by (auto simp add: button_ok_def update_elements Let_def)

lemma update_listeners: "listeners (elements (update en s) x) = listeners (elements s x)"
  by (simp add: update_elements Let_def del: map_option_eq_Some)

lemma wf_update: "well_formed s \<Longrightarrow> well_formed (update en s)"
  by (auto simp add: well_formed_def button_ok_update update_listeners split: option.splits)

lemma wf_init:
  assumes "well_formed s" "init en s = Some s'"
  shows "well_formed s'"
proof (cases "truthy (opt_pagination en) \<and> isEnough en")
  case False
  with assms show ?thesis using init_disabled[OF False, of s] by (auto simp add: wf_destroy)
next
  case True
  with init_post[OF assms(1) _ _ assms(2)] obtain m where
    l: "list_elm s' = Some (next_id s)" and
    it: "items s' = created_items (Suc (next_id s)) m" and
    le: "elements s' (next_id s) = list_elem en (next_id s)" and
    b: "\<forall>j<m. elements s' (Suc (Suc (next_id s + 2 * j))) =
           (let e = button_elem en j (Suc (next_id s + 2 * j));
                e1 = (if toPage en (getIndex en True) = int j then off e else e)
            in if toPage en (getIndex en False) = int j then lit e1 else e1)"
    by auto
  have "\<forall>i<m. button_ok s' i (Suc (Suc (next_id s + 2 * i)))"
    using b by (simp add: button_ok_def Let_def)
  then show ?thesis by (simp add: well_formed_def l it le)
qed

lemma wf_on: "well_formed s \<Longrightarrow> well_formed (on evs cb s)"
  by (simp add: well_formed_def button_ok_def split: option.splits)

lemma wf_mount: "well_formed s \<Longrightarrow> mount en s = Some s' \<Longrightarrow> well_formed s'"
  by (auto simp add: mount_def wf_on wf_init split: option.splits)

lemma wf_nth:
  "well_formed s \<Longrightarrow> list_elm s = Some l \<Longrightarrow> i < length (items s) \<Longrightarrow>
   items s ! i = \<lparr>li = Suc (l + 2 * i), button = Suc (Suc (l + 2 * i)), page = i\<rparr>"
proof -
  assume "well_formed s" "list_elm s = Some l" "i < length (items s)"
  then have "items s = created_items (Suc l) (length (items s))"
    by (simp add: well_formed_def)
  then have "items s ! i = created_items (Suc l) (length (items s)) ! i" by simp
  then show ?thesis using \<open>i < length (items s)\<close> by simp
qed

lemma wf_no_list: "well_formed s \<Longrightarrow> list_elm s = None \<Longrightarrow> items s = []"
  by (simp add: well_formed_def)

lemma wf_list_listeners:
  "well_formed s \<Longrightarrow> list_elm s = Some l \<Longrightarrow>
   listeners (elements s l) =
     [(''focusin'', AddClass l CLASS_FOCUS), (''focusout'', RemoveClass l CLASS_FOCUS)]"
  by (simp add: well_formed_def)

lemma wf_button_ok:
  "well_formed s \<Longrightarrow> i < length (items s) \<Longrightarrow> button_ok s i (button (items s ! i))"
proof -
  assume w: "well_formed s" and i: "i < length (items s)"
  then obtain l where l: "list_elm s = Some l"
    by (cases "list_elm s") (auto simp add: well_formed_def)
  with w i have "button_ok s i (Suc (Suc (l + 2 * i)))" by (simp add: well_formed_def)
  then show ?thesis using wf_nth[OF w l i] by simp
qed

lemma wf_page: "well_formed s \<Longrightarrow> i < length (items s) \<Longrightarrow> page (items s ! i) = i"
  by (cases "list_elm s") (auto simp add: wf_no_list wf_nth)

lemma wf_buttons_inj:
  "well_formed s \<Longrightarrow> i < length (items s) \<Longrightarrow> j < length (items s) \<Longrightarrow>
   button (items s ! i) = button (items s ! j) \<Longrightarrow> i = j"
  by (cases "list_elm s") (auto simp add: wf_no_list wf_nth)

lemma wf_button_not_li:
  "well_formed s \<Longrightarrow> i < length (items s) \<Longrightarrow> j < length (items s) \<Longrightarrow>
   button (items s ! i) \<noteq> li (items s ! j)"
  by (cases "list_elm s") (auto simp add: wf_no_list wf_nth, presburger)

lemma wf_button_not_list:
  "well_formed s \<Longrightarrow> i < length (items s) \<Longrightarrow> list_elm s \<noteq> Some (button (items s ! i))"
  by (cases "list_elm s") (auto simp add: wf_no_list wf_nth)

lemma getAt_Some:
  "getAt en s k = Some it \<Longrightarrow> \<exists>i < length (items s). it = items s ! i \<and> toPage en k = int i"
  by (auto simp add: getAt_def js_index_def split: if_splits intro!: exI[of _ "nat (toPage en k)"])

lemma set_items_nth: "it \<in> set (items s) \<Longrightarrow> \<exists>i < length (items s). it = items s ! i"
  by (metis in_set_conv_nth)

text \<open>
  The events of the document on a button or on the list leave the items, the list
  variable and every button as they are.
\<close>

lemma onKeydown_frame:
  "items (snd (onKeydown en p e s)) = items s"
  "list_elm (snd (onKeydown en p e s)) = list_elm s"
  "elements (snd (onKeydown en p e s)) = elements s"
  by (simp_all add: onKeydown_def Let_def go_def focus_def split: prod.split option.split)

lemma dispatch_button:
  assumes "listeners (elements s b) = [(''click'', OnClick i), (''keydown'', OnKeydown i)]"
  shows "items (snd (dispatch en ev k b s)) = items s"
    and "list_elm (snd (dispatch en ev k b s)) = list_elm s"
    and "elements (snd (dispatch en ev k b s)) = elements s"
  using assms
  by (simp_all add: dispatch_def onClick_def go_def onKeydown_frame)

lemma dispatch_list:
  assumes "listeners (elements s l) = [(''focusin'', AddClass l c), (''focusout'', RemoveClass l c)]"
  shows "items (snd (dispatch en ev k l s)) = items s"
    and "list_elm (snd (dispatch en ev k l s)) = list_elm s"
    and "x \<noteq> l \<Longrightarrow> elements (snd (dispatch en ev k l s)) x = elements s x"
    and "listeners (elements (snd (dispatch en ev k l s)) l) = listeners (elements s l)"
  using assms
  by (simp_all add: dispatch_def addClass_def removeClass_def)

lemma wf_button_event:
  assumes "well_formed s" "it \<in> set (items s)" "dispatch en ev k (button it) s = (e, s')"
  shows "well_formed s'"
    and "items s' = items s" and "list_elm s' = list_elm s" and "elements s' = elements s"
proof -
  from assms(2) obtain i where i: "i < length (items s)" "it = items s ! i"
    using set_items_nth by blast
  have "button_ok s i (button it)" using wf_button_ok[OF assms(1) i(1)] i(2) by simp
  then have "listeners (elements s (button it)) = [(''click'', OnClick i), (''keydown'', OnKeydown i)]"
    by (simp add: button_ok_def)
  from dispatch_button[OF this, where en = en and ev = ev and k = k] assms(3)
  show f: "items s' = items s" "list_elm s' = list_elm s" "elements s' = elements s"
    by simp_all
  then show "well_formed s'"
    using assms(1) by (simp add: well_formed_def button_ok_def split: option.splits)
qed

lemma wf_list_event:
  assumes "well_formed s" "list_elm s = Some l" "dispatch en ev k l s = (e, s')"
  shows "well_formed s'"
    and "items s' = items s" and "list_elm s' = list_elm s"
    and "x \<noteq> l \<Longrightarrow> elements s' x = elements s x"
proof -
  note d = dispatch_list[OF wf_list_listeners[OF assms(1,2)], where en = en and ev = ev and k = k]
  from d assms(3) show f: "items s' = items s" "list_elm s' = list_elm s" by simp_all
  from d(3) assms(3) show g: "elements s' x = elements s x" if "x \<noteq> l" for x
    using that by simp
  from d(4) assms(3) have h: "listeners (elements s' l) = listeners (elements s l)" by simp
  have "button_ok s' i (Suc (Suc (l + 2 * i))) = button_ok s i (Suc (Suc (l + 2 * i)))" for i
    by (simp add: button_ok_def g)
  then show "well_formed s'"
    using assms(1,2) f h by (simp add: well_formed_def)
qed

lemma reachable_wf: "reachable s \<Longrightarrow> well_formed s"
  by (induction rule: reachable.induct)
     (auto intro: wf_initial wf_mount wf_init wf_update wf_destroy wf_button_event(1)
        wf_list_event(1))

lemma reachable_in_step_reachable: "reachable_in_step s \<Longrightarrow> reachable s"
  by (induction rule: reachable_in_step.induct) (auto intro: reachable.intros)

text \<open>An event of the carousel runs \<^verbatim>\<open>init\<close> and \<^verbatim>\<open>update\<close> only.\<close>

lemma reachable_callbacks:
  "reachable s \<Longrightarrow> run_callbacks en cs s = Some s' \<Longrightarrow> reachable s'"
proof (induction cs arbitrary: s)
  case Nil
  then show ?case by simp
next
  case (Cons c cs)
  then obtain s1 where s1: "run_callback en c s = Some s1" "run_callbacks en cs s1 = Some s'"
    by (auto split: option.splits)
  have "reachable s1"
    using s1(1) Cons.prems(1) by (cases c) (auto intro: by_init by_update)
  then show ?case using Cons.IH s1(2) by blast
qed

lemma reachable_fire: "reachable s \<Longrightarrow> fire en ev s = Some s' \<Longrightarrow> reachable s'"
  by (auto simp add: fire_def intro: reachable_callbacks)

subsection \<open>\<^verbatim>\<open>getAt\<close> and \<^verbatim>\<open>update\<close>\<close>

text \<open>
  Claim C8. For every index, \<^verbatim>\<open>getAt\<close> returns the element of \<^verbatim>\<open>items\<close> at the page the
  controller maps the index to, and it never fails: when that page is outside the items
  it returns \<^verbatim>\<open>undefined\<close> (\<open>None\<close>), in particular for every index while the items
  are empty.
\<close>

theorem getAt_never_fails:
  "getAt en s index = js_index (items s) (toPage en index)
   \<and> (toPage en index < 0 \<or> int (length (items s)) \<le> toPage en index \<longrightarrow> getAt en s index = None)
   \<and> (0 \<le> toPage en index \<and> toPage en index < int (length (items s)) \<longrightarrow>
        getAt en s index = Some (items s ! nat (toPage en index)))
   \<and> (items s = [] \<longrightarrow> getAt en s index = None)"
  by (auto simp add: getAt_def js_index_def)

lemma update_no_items:
  "items s = [] \<Longrightarrow> update en s = s\<lparr>emitted := emitted s @ [PaginationUpdated (list_elm s) [] None None]\<rparr>"
proof -
  assume "items s = []"
  then have "getAt en s (getIndex en True) = None" "getAt en s (getIndex en False) = None"
    by (simp_all add: getAt_def js_index_def)
  then show ?thesis using \<open>items s = []\<close> by (simp add: update_def emit_def)
qed

lemma mount_disabled:
  assumes "initial s" "\<not> truthy (opt_pagination en)"
  shows "mount en s = Some (s\<lparr>subscriptions :=
           [(EVENT_UPDATED, CbInit), (EVENT_REFRESH, CbInit), (EVENT_MOVE, CbUpdate), (EVENT_SCROLLED, CbUpdate)]\<rparr>)"
  using assms by (simp add: mount_def init_eq initial_def destroy_None on_def)

text \<open>
  Claim C10. Every call of \<^verbatim>\<open>update\<close> emits the pagination-updated event once, with the
  list, the items, and the previous and current items (each of them possibly
  \<^verbatim>\<open>undefined\<close>). It does so when there is no pagination too: then nothing else changes,
  and on a carousel mounted with the pagination disabled a move or scrolled event still
  produces that one event.
\<close>

theorem update_emits_once:
  "emitted (update en s) =
     emitted s @ [PaginationUpdated (list_elm s) (items s)
                    (getAt en s (getIndex en True)) (getAt en s (getIndex en False))]
   \<and> (items s = [] \<longrightarrow>
        update en s = s\<lparr>emitted := emitted s @ [PaginationUpdated (list_elm s) [] None None]\<rparr>)
   \<and> (initial s0 \<and> \<not> truthy (opt_pagination en0) \<longrightarrow>
        (\<exists>s1. mount en0 s0 = Some s1 \<and> items s1 = [] \<and> list_elm s1 = None
           \<and> fire en' EVENT_MOVE s1 = Some (s1\<lparr>emitted := [PaginationUpdated None [] None None]\<rparr>)
           \<and> fire en' EVENT_SCROLLED s1 = Some (s1\<lparr>emitted := [PaginationUpdated None [] None None]\<rparr>)))"
proof -
  have "\<exists>s1. mount en0 s0 = Some s1 \<and> items s1 = [] \<and> list_elm s1 = None
           \<and> fire en' EVENT_MOVE s1 = Some (s1\<lparr>emitted := [PaginationUpdated None [] None None]\<rparr>)
           \<and> fire en' EVENT_SCROLLED s1 = Some (s1\<lparr>emitted := [PaginationUpdated None [] None None]\<rparr>)"
    if a: "initial s0 \<and> \<not> truthy (opt_pagination en0)"
  proof -
    define s1 where "s1 = s0\<lparr>subscriptions :=
           [(EVENT_UPDATED, CbInit), (EVENT_REFRESH, CbInit), (EVENT_MOVE, CbUpdate), (EVENT_SCROLLED, CbUpdate)]\<rparr>"
    have m: "mount en0 s0 = Some s1" using a by (simp add: mount_disabled s1_def)
    have i: "items s1 = []" "list_elm s1 = None" "emitted s1 = []"
      using a by (simp_all add: s1_def initial_def)
    have f: "fire en' EVENT_MOVE s1 = Some (update en' s1)" "fire en' EVENT_SCROLLED s1 = Some (update en' s1)"
      by (simp_all add: fire_def s1_def)
    have "update en' s1 = s1\<lparr>emitted := [PaginationUpdated None [] None None]\<rparr>"
      using i by (simp add: update_no_items)
    with m i f show ?thesis by simp
  qed
  then show ?thesis
    using update_emitted[of en s] update_no_items[of s en] by blast
qed

text \<open>
  Claim C1. After \<^verbatim>\<open>update\<close>, the button of the item at the page of the current index,
  when there is one, has the active class, \<^verbatim>\<open>aria-selected\<close> true and an empty tabindex;
  the button of the item at the page of the previous index, when there is one and it is
  not the current item, has lost the active class and \<^verbatim>\<open>aria-selected\<close> and has
  tabindex -1.
\<close>

theorem update_marks_current_and_previous:
  assumes "reachable s"
  shows "(\<forall>it. getAt en s (getIndex en False) = Some it \<longrightarrow>
            CLASS_ACTIVE \<in> classes (elements (update en s) (button it))
            \<and> attrs (elements (update en s) (button it)) ARIA_SELECTED = Some ''true''
            \<and> attrs (elements (update en s) (button it)) TAB_INDEX = Some '''')
       \<and> (\<forall>it. getAt en s (getIndex en True) = Some it \<and> getAt en s (getIndex en False) \<noteq> Some it \<longrightarrow>
            CLASS_ACTIVE \<notin> classes (elements (update en s) (button it))
            \<and> attrs (elements (update en s) (button it)) ARIA_SELECTED = None
            \<and> attrs (elements (update en s) (button it)) TAB_INDEX = Some ''-1'')"
proof -
  have curr: "CLASS_ACTIVE \<in> classes (elements (update en s) (button it))
            \<and> attrs (elements (update en s) (button it)) ARIA_SELECTED = Some ''true''
            \<and> attrs (elements (update en s) (button it)) TAB_INDEX = Some ''''"
    if "getAt en s (getIndex en False) = Some it" for it
    using that by (simp add: update_elements Let_def)
  have prev: "CLASS_ACTIVE \<notin> classes (elements (update en s) (button it))
            \<and> attrs (elements (update en s) (button it)) ARIA_SELECTED = None
            \<and> attrs (elements (update en s) (button it)) TAB_INDEX = Some ''-1''"
    if a: "getAt en s (getIndex en True) = Some it \<and> getAt en s (getIndex en False) \<noteq> Some it" for it
  proof -
    have w: "well_formed s" using assms by (rule reachable_wf)
    from a obtain i where i: "i < length (items s)" "it = items s ! i"
      using getAt_Some by blast
    have "map_option button (getAt en s (getIndex en False)) \<noteq> Some (button it)"
    proof
      assume "map_option button (getAt en s (getIndex en False)) = Some (button it)"
      then obtain it' where c: "getAt en s (getIndex en False) = Some it'" "button it' = button it"
        by auto
      then obtain j where j: "j < length (items s)" "it' = items s ! j"
        using getAt_Some by blast
      with c i have "j = i" using wf_buttons_inj[OF w] by simp
      with c j i a show False by simp
    qed
    then show ?thesis
      using a by (simp add: update_elements Let_def del: map_option_eq_Some)
  qed
  from curr prev show ?thesis by blast
qed

subsection \<open>The frame of \<^verbatim>\<open>update\<close>; \<^verbatim>\<open>destroy\<close>; clicks\<close>

lemma update_other_element:
  "map_option button (getAt en s (getIndex en True)) \<noteq> Some x \<Longrightarrow>
   map_option button (getAt en s (getIndex en False)) \<noteq> Some x \<Longrightarrow>
   elements (update en s) x = elements s x"
  by (simp add: update_elements Let_def del: map_option_eq_Some)

lemma update_element_frame:
  "tag (elements (update en s) x) = tag (elements s x)
   \<and> parent (elements (update en s) x) = parent (elements s x)
   \<and> listeners (elements (update en s) x) = listeners (elements s x)
   \<and> classes (elements (update en s) x) - {CLASS_ACTIVE} = classes (elements s x) - {CLASS_ACTIVE}
   \<and> (\<forall>a. a \<noteq> ARIA_SELECTED \<and> a \<noteq> TAB_INDEX \<longrightarrow>
         attrs (elements (update en s) x) a = attrs (elements s x) a)"
  by (simp add: update_elements Let_def del: map_option_eq_Some)

lemma wf_not_a_button:
  assumes "well_formed s" "getAt en s k = Some it"
  shows "list_elm s \<noteq> Some (button it)"
    and "it' \<in> set (items s) \<Longrightarrow> button it \<noteq> li it'"
    and "it' \<in> set (items s) \<Longrightarrow> it' \<noteq> it \<Longrightarrow> button it \<noteq> button it'"
proof -
  from assms(2) obtain i where i: "i < length (items s)" "it = items s ! i"
    using getAt_Some by blast
  show "list_elm s \<noteq> Some (button it)"
    using wf_button_not_list[OF assms(1) i(1)] i(2) by simp
  show "button it \<noteq> li it'" if "it' \<in> set (items s)"
  proof -
    from that obtain j where "j < length (items s)" "it' = items s ! j"
      using set_items_nth by blast
    then show ?thesis using wf_button_not_li[OF assms(1) i(1), of j] i(2) by simp
  qed
  show "button it \<noteq> button it'" if "it' \<in> set (items s)" "it' \<noteq> it"
  proof -
    from that obtain j where j: "j < length (items s)" "it' = items s ! j"
      using set_items_nth by blast
    then show ?thesis using wf_buttons_inj[OF assms(1) j(1) i(1)] i(2) that(2) by auto
  qed
qed

text \<open>
  Claim C6. \<^verbatim>\<open>update\<close> changes nothing but the active class, \<^verbatim>\<open>aria-selected\<close> and
  tabindex of the buttons of the previous and current items, and emits one event: the
  items, the list variable and every other element of the document are as before; so are
  the list element, the \<^verbatim>\<open>li\<close> of every item and the button of every other item.
\<close>

theorem update_frame:
  assumes "reachable s"
  shows "items (update en s) = items s \<and> list_elm (update en s) = list_elm s
     \<and> next_id (update en s) = next_id s \<and> focused (update en s) = focused s
     \<and> go_calls (update en s) = go_calls s \<and> subscriptions (update en s) = subscriptions s
     \<and> emitted (update en s) =
         emitted s @ [PaginationUpdated (list_elm s) (items s)
                        (getAt en s (getIndex en True)) (getAt en s (getIndex en False))]
     \<and> (\<forall>x. map_option button (getAt en s (getIndex en True)) \<noteq> Some x
            \<and> map_option button (getAt en s (getIndex en False)) \<noteq> Some x
            \<longrightarrow> elements (update en s) x = elements s x)
     \<and> (\<forall>x. tag (elements (update en s) x) = tag (elements s x)
            \<and> parent (elements (update en s) x) = parent (elements s x)
            \<and> listeners (elements (update en s) x) = listeners (elements s x)
            \<and> classes (elements (update en s) x) - {CLASS_ACTIVE} = classes (elements s x) - {CLASS_ACTIVE}
            \<and> (\<forall>a. a \<noteq> ARIA_SELECTED \<and> a \<noteq> TAB_INDEX \<longrightarrow>
                  attrs (elements (update en s) x) a = attrs (elements s x) a))
     \<and> (\<forall>l. list_elm s = Some l \<longrightarrow> elements (update en s) l = elements s l)
     \<and> (\<forall>it \<in> set (items s). elements (update en s) (li it) = elements s (li it))
     \<and> (\<forall>it \<in> set (items s).
           getAt en s (getIndex en True) \<noteq> Some it \<and> getAt en s (getIndex en False) \<noteq> Some it
           \<longrightarrow> elements (update en s) (button it) = elements s (button it))"
proof -
  have w: "well_formed s" using assms by (rule reachable_wf)
  have lst: "elements (update en s) l = elements s l" if "list_elm s = Some l" for l
    using that wf_not_a_button(1)[OF w] by (intro update_other_element) auto
  have lis: "elements (update en s) (li it) = elements s (li it)" if "it \<in> set (items s)" for it
    using that wf_not_a_button(2)[OF w] by (intro update_other_element) auto
  have others: "elements (update en s) (button it) = elements s (button it)"
    if "it \<in> set (items s)"
      "getAt en s (getIndex en True) \<noteq> Some it \<and> getAt en s (getIndex en False) \<noteq> Some it" for it
    using that wf_not_a_button(3)[OF w] by (intro update_other_element) auto
  show ?thesis
    using lst lis others update_other_element[of en s] update_element_frame[of en s]
    by (simp add: update_emitted)
qed

lemma destroy_twice: "destroy (destroy s) = destroy s"
  by (simp add: destroy_None)

text \<open>
  Claim C9. After \<^verbatim>\<open>destroy\<close> the items are empty and the list is null, no listener is
  left on the button of any item and the list element has no parent; a second
  \<^verbatim>\<open>destroy\<close> changes nothing.
\<close>

theorem destroy_resets:
  assumes "reachable s"
  shows "items (destroy s) = [] \<and> list_elm (destroy s) = None
     \<and> destroy (destroy s) = destroy s
     \<and> (\<forall>it \<in> set (items s). listeners (elements (destroy s) (button it)) = [])
     \<and> (\<forall>l. list_elm s = Some l \<longrightarrow> parent (elements (destroy s) l) = None)"
proof -
  have w: "well_formed s" using assms by (rule reachable_wf)
  have unbound: "listeners (elements (destroy s) (button it)) = []" if "it \<in> set (items s)" for it
  proof -
    from that obtain i where i: "i < length (items s)" "it = items s ! i"
      using set_items_nth by blast
    then obtain l where l: "list_elm s = Some l"
      using w by (cases "list_elm s") (auto simp add: wf_no_list)
    have "button_ok s i (button it)" using wf_button_ok[OF w i(1)] i(2) by simp
    then have "listeners (elements s (button it)) = [(''click'', OnClick i), (''keydown'', OnKeydown i)]"
      by (simp add: button_ok_def)
    moreover have "button it \<noteq> l" using wf_button_not_list[OF w i(1)] l i(2) by auto
    ultimately show ?thesis using that by (simp add: destroy_elements[OF l] Let_def)
  qed
  have removed: "parent (elements (destroy s) l) = None" if "list_elm s = Some l" for l
    by (simp add: destroy_elements[OF that] Let_def)
  show ?thesis
    using unbound removed wf_items_destroy[OF w] by (simp add: destroy_twice)
qed

lemma show_nat_digit: "n < 10 \<Longrightarrow> show_nat n = [digit_char n]"
  by simp

text \<open>
  Claim C3. A click on the button of page \<open>i\<close> calls \<^verbatim>\<open>Controller.go\<close> once, with the
  command \<^verbatim>\<open>>i\<close> and \<^verbatim>\<open>true\<close>, and changes nothing else: not the items, the list, nor
  any element.
\<close>

theorem click_goes_to_page:
  assumes "reachable s" "i < length (items s)"
  shows "dispatch en ''click'' k (button (items s ! i)) s =
           (\<lparr>key = k, defaultPrevented = False, propagationStopped = False\<rparr>,
            s\<lparr>go_calls := go_calls s @ [(''>'' @ show_nat i, Some True)]\<rparr>)"
proof -
  have w: "well_formed s" using assms(1) by (rule reachable_wf)
  have "button_ok s i (button (items s ! i))" using wf_button_ok[OF w assms(2)] .
  then have "listeners (elements s (button (items s ! i))) =
      [(''click'', OnClick i), (''keydown'', OnKeydown i)]"
    by (simp add: button_ok_def)
  then show ?thesis
    by (simp add: dispatch_def onClick_def go_def)
qed

subsection \<open>At most one active button\<close>

lemma button_ok_tabindex:
  "button_ok s i b \<Longrightarrow> (attrs (elements s b) TAB_INDEX = Some ''-1'') = (\<not> is_active s b)"
  by (auto simp add: button_ok_def is_active_def)

text \<open>
  After an \<^verbatim>\<open>update\<close> that found a current item with the controller in step, the only
  button that can be active is that of the current item.
\<close>

lemma active_after_update:
  assumes w: "well_formed s" and g: "in_step en s"
    and cur: "getAt en s (getIndex en False) \<noteq> None"
    and it: "it \<in> set (items s)" and a: "is_active (update en s) (button it)"
  shows "getAt en s (getIndex en False) = Some it"
proof (rule ccontr)
  assume n: "getAt en s (getIndex en False) \<noteq> Some it"
  have c: "map_option button (getAt en s (getIndex en False)) \<noteq> Some (button it)"
  proof
    assume "map_option button (getAt en s (getIndex en False)) = Some (button it)"
    then obtain it' where c: "getAt en s (getIndex en False) = Some it'" "button it' = button it"
      by auto
    with wf_not_a_button(3)[OF w c(1) it] n show False by auto
  qed
  show False
  proof (cases "map_option button (getAt en s (getIndex en True)) = Some (button it)")
    case True
    with c have "elements (update en s) (button it) = off (elements s (button it))"
      by (simp add: update_elements Let_def del: map_option_eq_Some)
    with a show False by (simp add: is_active_def)
  next
    case False
    with c have "elements (update en s) (button it) = elements s (button it)"
      by (simp add: update_elements Let_def del: map_option_eq_Some)
    with a have "is_active s (button it)" by (simp add: is_active_def)
    with g cur it n have "getAt en s (getIndex en True) = Some it"
      by (auto simp add: in_step_def)
    with False show False by simp
  qed
qed

text \<open>An \<^verbatim>\<open>update\<close> that finds no current item lights no button.\<close>

lemma active_update_no_current:
  assumes "getAt en s (getIndex en False) = None" "is_active (update en s) b"
  shows "is_active s b"
proof (cases "map_option button (getAt en s (getIndex en True)) = Some b")
  case True
  with assms(1) have "elements (update en s) b = off (elements s b)"
    by (simp add: update_elements Let_def del: map_option_eq_Some)
  with assms(2) show ?thesis by (simp add: is_active_def)
next
  case False
  with assms(1) have "elements (update en s) b = elements s b"
    by (simp add: update_elements Let_def del: map_option_eq_Some)
  with assms(2) show ?thesis by (simp add: is_active_def)
qed

lemma active_after_init:
  assumes w: "well_formed s" and i: "init en s = Some s'"
    and it: "it \<in> set (items s')" and a: "is_active s' (button it)"
  shows "getAt en s' (getIndex en False) = Some it"
proof (cases "truthy (opt_pagination en) \<and> isEnough en")
  case False
  then have "s' = destroy s" using i init_disabled[OF False, of s] by simp
  then have "items s' = []" using w by (simp add: wf_items_destroy)
  with it show ?thesis by simp
next
  case True
  with init_post[OF w _ _ i] obtain m where
    its: "items s' = created_items (Suc (next_id s)) m" and
    b: "\<forall>j<m. elements s' (Suc (Suc (next_id s + 2 * j))) =
           (let e = button_elem en j (Suc (next_id s + 2 * j));
                e1 = (if toPage en (getIndex en True) = int j then off e else e)
            in if toPage en (getIndex en False) = int j then lit e1 else e1)"
    by auto
  from it its obtain j where j: "j < m" "it = created_items (Suc (next_id s)) m ! j"
    by (metis in_set_conv_nth length_created_items)
  then have bt: "button it = Suc (Suc (next_id s + 2 * j))" by simp
  have "toPage en (getIndex en False) = int j"
  proof (rule ccontr)
    assume "toPage en (getIndex en False) \<noteq> int j"
    with b j(1) bt have "attrs (elements s' (button it)) ARIA_SELECTED = None"
      by (simp add: Let_def)
    with a show False by (simp add: is_active_def)
  qed
  then show ?thesis using j by (simp add: getAt_def its js_index_created_items)
qed

text \<open>
  The controller is in step when the page it reports as previous or as current is the
  page it reported as current at the preceding \<^verbatim>\<open>init\<close>, or at a preceding \<^verbatim>\<open>update\<close>
  that found a current item; in particular when \<^verbatim>\<open>update\<close> is called again with the
  same answers, as after a click on the active button.
\<close>

lemma in_step_after_update:
  assumes "well_formed s" "in_step en0 s" "getAt en0 s (getIndex en0 False) \<noteq> None"
    "toPage en (getIndex en True) = toPage en0 (getIndex en0 False)
     \<or> toPage en (getIndex en False) = toPage en0 (getIndex en0 False)"
  shows "in_step en (update en0 s)"
  unfolding in_step_def
proof (intro ballI impI)
  fix it
  assume "it \<in> set (items (update en0 s))" "is_active (update en0 s) (button it)"
  then have "getAt en0 s (getIndex en0 False) = Some it"
    using active_after_update[OF assms(1,2,3)] by simp
  then show "getAt en (update en0 s) (getIndex en True) = Some it
      \<or> getAt en (update en0 s) (getIndex en False) = Some it"
    using assms(4) by (auto simp add: getAt_def)
qed

lemma in_step_after_init:
  assumes "well_formed s" "init en0 s = Some s'"
    "toPage en (getIndex en True) = toPage en0 (getIndex en0 False)
     \<or> toPage en (getIndex en False) = toPage en0 (getIndex en0 False)"
  shows "in_step en s'"
  unfolding in_step_def
proof (intro ballI impI)
  fix it
  assume "it \<in> set (items s')" "is_active s' (button it)"
  then have "getAt en0 s' (getIndex en0 False) = Some it"
    using active_after_init[OF assms(1,2)] by simp
  then show "getAt en s' (getIndex en True) = Some it \<or> getAt en s' (getIndex en False) = Some it"
    using assms(3) by (auto simp add: getAt_def)
qed

lemma in_step_repeated:
  assumes "well_formed s" "in_step en s"
  shows "in_step en (update en s)"
proof (cases "getAt en s (getIndex en False) = None")
  case True
  then show ?thesis by (simp add: in_step_def)
next
  case False
  then show ?thesis using in_step_after_update[OF assms False, of en] by simp
qed

lemma in_step_no_current: "getAt en s (getIndex en False) = None \<Longrightarrow> in_step en s"
  by (simp add: in_step_def)

text \<open>
  No weaker condition will do: an \<^verbatim>\<open>update\<close> called with the controller out of step
  leaves two buttons active.
\<close>

lemma out_of_step_two_active:
  assumes w: "well_formed s" and n: "\<not> in_step en s"
  shows "\<exists>it \<in> set (items s). \<exists>it' \<in> set (items s).
           it \<noteq> it' \<and> is_active (update en s) (button it) \<and> is_active (update en s) (button it')"
proof -
  from n obtain c it where c: "getAt en s (getIndex en False) = Some c"
    and it: "it \<in> set (items s)" and a: "is_active s (button it)"
    and p: "getAt en s (getIndex en True) \<noteq> Some it" and d: "c \<noteq> it"
    by (auto simp add: in_step_def)
  from c have m: "c \<in> set (items s)" using getAt_Some by fastforce
  have "is_active (update en s) (button c)"
    using c by (simp add: is_active_def update_elements Let_def lit_def off_def
        del: map_option_eq_Some)
  moreover have "is_active (update en s) (button it)"
  proof -
    have "map_option button (getAt en s (getIndex en False)) \<noteq> Some (button it)"
      using c d wf_not_a_button(3)[OF w c it] by auto
    moreover have "map_option button (getAt en s (getIndex en True)) \<noteq> Some (button it)"
    proof
      assume "map_option button (getAt en s (getIndex en True)) = Some (button it)"
      then obtain it' where q: "getAt en s (getIndex en True) = Some it'" "button it' = button it"
        by auto
      with wf_not_a_button(3)[OF w q(1) it] p show False by auto
    qed
    ultimately have "elements (update en s) (button it) = elements s (button it)"
      by (simp add: update_elements Let_def del: map_option_eq_Some)
    with a show ?thesis by (simp add: is_active_def)
  qed
  ultimately show ?thesis using m it d by blast
qed

lemma only_one_current:
  assumes "well_formed s" "i < length (items s)" "j < length (items s)"
    "getAt en s k = Some (items s ! i)" "getAt en s k = Some (items s ! j)"
  shows "i = j"
  using assms wf_buttons_inj[of s i j] by simp

lemma at_most_one_active:
  "reachable_in_step s \<Longrightarrow>
   \<forall>i<length (items s). \<forall>j<length (items s).
     is_active s (button (items s ! i)) \<and> is_active s (button (items s ! j)) \<longrightarrow> i = j"
proof (induction rule: reachable_in_step.induct)
  case (step_start s)
  then show ?case by (simp add: initial_def)
next
  case (step_mount s en s')
  then obtain s1 where s1: "init en s = Some s1"
    and s': "s' = on [EVENT_MOVE, EVENT_SCROLLED] CbUpdate (on [EVENT_UPDATED, EVENT_REFRESH] CbInit s1)"
    by (auto simp add: mount_def split: option.splits)
  have w: "well_formed s" using step_mount.hyps(1) by (rule reachable_wf)
  have w1: "well_formed s1" using w s1 by (rule wf_init)
  show ?case
  proof (intro allI impI)
    fix i j
    assume i: "i < length (items s')" and j: "j < length (items s')"
      and a: "is_active s' (button (items s' ! i)) \<and> is_active s' (button (items s' ! j))"
    from i j a have "getAt en s1 (getIndex en False) = Some (items s1 ! i)"
      "getAt en s1 (getIndex en False) = Some (items s1 ! j)"
      using active_after_init[OF w s1] by (simp_all add: s' is_active_def)
    then show "i = j" using only_one_current[OF w1] i j by (simp add: s')
  qed
next
  case (step_init s en s')
  have w: "well_formed s" using step_init.hyps(1) by (rule reachable_wf)
  have w1: "well_formed s'" using w step_init.hyps(2) by (rule wf_init)
  show ?case
  proof (intro allI impI)
    fix i j
    assume i: "i < length (items s')" and j: "j < length (items s')"
      and a: "is_active s' (button (items s' ! i)) \<and> is_active s' (button (items s' ! j))"
    from i j a have "getAt en s' (getIndex en False) = Some (items s' ! i)"
      "getAt en s' (getIndex en False) = Some (items s' ! j)"
      using active_after_init[OF w step_init.hyps(2)] by simp_all
    then show "i = j" using only_one_current[OF w1] i j by simp
  qed
next
  case (step_update s en)
  have w: "well_formed s" using step_update.hyps(1) reachable_in_step_reachable reachable_wf by blast
  show ?case
  proof (intro allI impI)
    fix i j
    assume i: "i < length (items (update en s))" and j: "j < length (items (update en s))"
      and a: "is_active (update en s) (button (items (update en s) ! i))
              \<and> is_active (update en s) (button (items (update en s) ! j))"
    show "i = j"
    proof (cases "getAt en s (getIndex en False) = None")
      case True
      from a have "is_active s (button (items s ! i)) \<and> is_active s (button (items s ! j))"
        using active_update_no_current[OF True] by simp
      then show ?thesis using step_update.IH i j by simp
    next
      case False
      from i j a have "getAt en s (getIndex en False) = Some (items s ! i)"
        "getAt en s (getIndex en False) = Some (items s ! j)"
        using active_after_update[OF w step_update.hyps(2) False] by simp_all
      then show ?thesis using only_one_current[OF w] i j by simp
    qed
  qed
next
  case (step_destroy s)
  have "well_formed s" using step_destroy.hyps(1) by (rule reachable_wf)
  then show ?case by (simp add: wf_items_destroy)
next
  case (step_button_event s it en ev k e s')
  have w: "well_formed s"
    using step_button_event.hyps(1) reachable_in_step_reachable reachable_wf by blast
  have "items s' = items s" "elements s' = elements s"
    using wf_button_event(2,4)[OF w step_button_event.hyps(2,3)] by simp_all
  then show ?case using step_button_event.IH by (simp add: is_active_def)
next
  case (step_list_event s l en ev k e s')
  have w: "well_formed s"
    using step_list_event.hyps(1) reachable_in_step_reachable reachable_wf by blast
  have f: "items s' = items s"
    using wf_list_event(2)[OF w step_list_event.hyps(2,3)] .
  have "is_active s' (button (items s ! i)) = is_active s (button (items s ! i))"
    if "i < length (items s)" for i
  proof -
    have "button (items s ! i) \<noteq> l"
      using wf_button_not_list[OF w that] step_list_event.hyps(2) by auto
    then show ?thesis
      using wf_list_event(4)[OF w step_list_event.hyps(2,3)] by (simp add: is_active_def)
  qed
  then show ?case using step_list_event.IH by (simp add: f)
qed

text \<open>
  Claim C5, as amended. In every state reached by \<^verbatim>\<open>mount\<close>, \<^verbatim>\<open>init\<close>, \<^verbatim>\<open>update\<close> and
  \<^verbatim>\<open>destroy\<close> (and the events of the document on the pagination in between), whatever
  the controller answers, the buttons with tabindex -1 are exactly those that are not
  active. In every such state in which each \<^verbatim>\<open>update\<close> since the last \<^verbatim>\<open>mount\<close>,
  \<^verbatim>\<open>init\<close> or \<^verbatim>\<open>destroy\<close> that found a current item was called while no button other
  than those of the previous and the current item was active, at most one button is
  active.
\<close>

theorem roving_tabindex:
  "(reachable s \<longrightarrow>
      (\<forall>i<length (items s).
         (attrs (elements s (button (items s ! i))) TAB_INDEX = Some ''-1'')
           = (\<not> is_active s (button (items s ! i)))))
   \<and> (reachable_in_step s \<longrightarrow>
      (\<forall>i<length (items s). \<forall>j<length (items s).
         is_active s (button (items s ! i)) \<and> is_active s (button (items s ! j)) \<longrightarrow> i = j))"
proof (intro conjI impI)
  assume "reachable s"
  then have w: "well_formed s" by (rule reachable_wf)
  show "\<forall>i<length (items s).
         (attrs (elements s (button (items s ! i))) TAB_INDEX = Some ''-1'')
           = (\<not> is_active s (button (items s ! i)))"
    using wf_button_ok[OF w] button_ok_tabindex by blast
next
  assume "reachable_in_step s"
  then show "\<forall>i<length (items s). \<forall>j<length (items s).
         is_active s (button (items s ! i)) \<and> is_active s (button (items s ! j)) \<longrightarrow> i = j"
    by (rule at_most_one_active)
qed

subsection \<open>The carousel of three slides\<close>

text \<open>
  The facts about the concrete carousel that the instances of the statements rest on:
  \<^verbatim>\<open>init\<close> returns on it, with the list at 1 and the items of pages 0, 1, 2 on the
  elements 2 to 7, the button of page 0 active.
\<close>

lemma unmounted_initial: "initial unmounted"
  by (simp add: initial_def unmounted_def)

lemma carousel3_pages: "page_count carousel3 = Some 3"
  by (simp add: page_count_def max_pages_def js_ceil_div_def carousel3_def)

lemma moved_pages: "page_count (moved p c) = Some 3"
  by (simp add: page_count_def max_pages_def js_ceil_div_def carousel3_def moved_def)

lemma carousel3_enabled: "truthy (opt_pagination carousel3)" "isEnough carousel3"
  by (simp_all add: carousel3_def)

lemma paginated3_init: "init carousel3 unmounted = Some paginated3"
  using init_returns[OF carousel3_enabled carousel3_pages, of unmounted]
  by (auto simp add: paginated3_def)

lemma paginated3_reachable: "reachable paginated3"
  using by_init[OF by_start[OF unmounted_initial] paginated3_init] .

lemma paginated3_in_step: "reachable_in_step paginated3"
  using step_init[OF by_start[OF unmounted_initial] paginated3_init] .

lemma created_items_3:
  "created_items b 3 =
     [\<lparr>li = b, button = Suc b, page = 0\<rparr>,
      \<lparr>li = b + 2, button = Suc (b + 2), page = 1\<rparr>,
      \<lparr>li = b + 4, button = Suc (b + 4), page = 2\<rparr>]"
  by (simp add: created_items_def upt_rec numeral_3_eq_3)

lemma paginated3_shape:
  "list_elm paginated3 = Some 1 \<and> items paginated3 = created_items 2 3"
proof -
  have n: "next_id unmounted = 1" by (simp add: unmounted_def)
  from init_post[OF wf_initial[OF unmounted_initial] carousel3_enabled paginated3_init]
  show ?thesis unfolding n carousel3_pages by (auto simp add: numeral_2_eq_2)
qed

lemma paginated3_list: "list_elm paginated3 = Some 1"
  using paginated3_shape by simp

lemma paginated3_items:
  "items paginated3 =
     [\<lparr>li = 2, button = 3, page = 0\<rparr>, \<lparr>li = 4, button = 5, page = 1\<rparr>, \<lparr>li = 6, button = 7, page = 2\<rparr>]"
  using paginated3_shape by (simp add: created_items_3)

lemma getAt_paginated3:
  "getAt (moved p c) paginated3 k = js_index (items paginated3) k"
  "getAt carousel3 paginated3 k = js_index (items paginated3) k"
  by (simp_all add: getAt_def moved_def carousel3_def)

lemma getIndex_moved: "getIndex (moved p c) True = p" "getIndex (moved p c) False = c"
  by (simp_all add: moved_def)

lemma paginated3_buttons:
  "elements paginated3 3 = lit (off (button_elem carousel3 0 2))"
  "elements paginated3 5 = button_elem carousel3 1 4"
  "elements paginated3 7 = button_elem carousel3 2 6"
proof -
  have n: "next_id unmounted = 1" by (simp add: unmounted_def)
  have g: "toPage carousel3 (getIndex carousel3 True) = 0" "toPage carousel3 (getIndex carousel3 False) = 0"
    by (simp_all add: carousel3_def)
  from init_post[OF wf_initial[OF unmounted_initial] carousel3_enabled paginated3_init]
  have b: "elements paginated3 (Suc (Suc (1 + 2 * j))) =
           (let e = button_elem carousel3 j (Suc (1 + 2 * j));
                e1 = (if 0 = int j then off e else e)
            in if 0 = int j then lit e1 else e1)" if "j < 3" for j
    using that unfolding n carousel3_pages g by auto
  from b[of 0] show "elements paginated3 3 = lit (off (button_elem carousel3 0 2))"
    by (simp add: Let_def eval_nat_numeral)
  from b[of 1] show "elements paginated3 5 = button_elem carousel3 1 4"
    by (simp add: Let_def eval_nat_numeral)
  from b[of 2] show "elements paginated3 7 = button_elem carousel3 2 6"
    by (simp add: Let_def eval_nat_numeral)
qed

subsection \<open>The statements on the carousel of three slides\<close>

text \<open>
  Each statement that has a condition is applied here to the carousel of three slides,
  where its conditions hold.
\<close>

lemma js_index_3:
  "js_index [a, b, c] 0 = Some a" "js_index [a, b, c] 1 = Some b" "js_index [a, b, c] 2 = Some c"
  "js_index [a, b, c] 5 = None"
  by (simp_all add: js_index_def)

theorem getAt_never_fails_witness:
  "int (length (items paginated3)) \<le> toPage carousel3 5
   \<and> getAt carousel3 paginated3 5 = None
   \<and> 0 \<le> toPage carousel3 1 \<and> toPage carousel3 1 < int (length (items paginated3))
   \<and> getAt carousel3 paginated3 1 = Some (items paginated3 ! nat (toPage carousel3 1))
   \<and> items unmounted = [] \<and> getAt carousel3 unmounted 0 = None"
proof -
  have a: "int (length (items paginated3)) \<le> toPage carousel3 5"
    and b: "0 \<le> toPage carousel3 1 \<and> toPage carousel3 1 < int (length (items paginated3))"
    by (simp_all add: paginated3_items carousel3_def)
  have c: "items unmounted = []" by (simp add: unmounted_def)
  show ?thesis
    using a b c getAt_never_fails[of carousel3 paginated3 5]
      getAt_never_fails[of carousel3 paginated3 1] getAt_never_fails[of carousel3 unmounted 0]
    by blast
qed

theorem update_emits_once_witness:
  "items unmounted = []
   \<and> update carousel3 unmounted = unmounted\<lparr>emitted := [PaginationUpdated None [] None None]\<rparr>
   \<and> initial unmounted \<and> \<not> truthy (opt_pagination disabled3)
   \<and> fire carousel3 EVENT_MOVE (the (mount disabled3 unmounted)) =
       Some ((the (mount disabled3 unmounted))\<lparr>emitted := [PaginationUpdated None [] None None]\<rparr>)"
proof -
  have a: "items unmounted = []" and b: "initial unmounted \<and> \<not> truthy (opt_pagination disabled3)"
    and c: "emitted unmounted = []" "list_elm unmounted = None"
    by (simp_all add: unmounted_def initial_def disabled3_def carousel3_def)
  from update_emits_once[of carousel3 unmounted unmounted disabled3 carousel3] a b
  have u: "update carousel3 unmounted = unmounted\<lparr>emitted := emitted unmounted @ [PaginationUpdated (list_elm unmounted) [] None None]\<rparr>"
    and "\<exists>s1. mount disabled3 unmounted = Some s1
           \<and> fire carousel3 EVENT_MOVE s1 = Some (s1\<lparr>emitted := [PaginationUpdated None [] None None]\<rparr>)"
    by blast+
  then obtain s1 where "mount disabled3 unmounted = Some s1"
    "fire carousel3 EVENT_MOVE s1 = Some (s1\<lparr>emitted := [PaginationUpdated None [] None None]\<rparr>)"
    by blast
  then show ?thesis using a b u c by simp
qed

theorem update_marks_current_and_previous_witness:
  "reachable paginated3
   \<and> getAt (moved 0 1) paginated3 (getIndex (moved 0 1) False) = Some \<lparr>li = 4, button = 5, page = 1\<rparr>
   \<and> CLASS_ACTIVE \<in> classes (elements (update (moved 0 1) paginated3) 5)
   \<and> attrs (elements (update (moved 0 1) paginated3) 5) ARIA_SELECTED = Some ''true''
   \<and> attrs (elements (update (moved 0 1) paginated3) 5) TAB_INDEX = Some ''''
   \<and> getAt (moved 0 1) paginated3 (getIndex (moved 0 1) True) = Some \<lparr>li = 2, button = 3, page = 0\<rparr>
   \<and> CLASS_ACTIVE \<notin> classes (elements (update (moved 0 1) paginated3) 3)
   \<and> attrs (elements (update (moved 0 1) paginated3) 3) ARIA_SELECTED = None
   \<and> attrs (elements (update (moved 0 1) paginated3) 3) TAB_INDEX = Some ''-1''"
proof -
  have c: "getAt (moved 0 1) paginated3 (getIndex (moved 0 1) False) = Some \<lparr>li = 4, button = 5, page = 1\<rparr>"
    and p: "getAt (moved 0 1) paginated3 (getIndex (moved 0 1) True) = Some \<lparr>li = 2, button = 3, page = 0\<rparr>"
    by (simp_all add: getAt_paginated3 getIndex_moved paginated3_items js_index_3)
  from c p have "getAt (moved 0 1) paginated3 (getIndex (moved 0 1) True) = Some \<lparr>li = 2, button = 3, page = 0\<rparr>
      \<and> getAt (moved 0 1) paginated3 (getIndex (moved 0 1) False) \<noteq> Some \<lparr>li = 2, button = 3, page = 0\<rparr>"
    by simp
  with c update_marks_current_and_previous[OF paginated3_reachable, of "moved 0 1"]
  have "CLASS_ACTIVE \<in> classes (elements (update (moved 0 1) paginated3) (button \<lparr>li = 4, button = 5, page = 1\<rparr>))
      \<and> attrs (elements (update (moved 0 1) paginated3) (button \<lparr>li = 4, button = 5, page = 1\<rparr>)) ARIA_SELECTED = Some ''true''
      \<and> attrs (elements (update (moved 0 1) paginated3) (button \<lparr>li = 4, button = 5, page = 1\<rparr>)) TAB_INDEX = Some ''''"
    "CLASS_ACTIVE \<notin> classes (elements (update (moved 0 1) paginated3) (button \<lparr>li = 2, button = 3, page = 0\<rparr>))
      \<and> attrs (elements (update (moved 0 1) paginated3) (button \<lparr>li = 2, button = 3, page = 0\<rparr>)) ARIA_SELECTED = None
      \<and> attrs (elements (update (moved 0 1) paginated3) (button \<lparr>li = 2, button = 3, page = 0\<rparr>)) TAB_INDEX = Some ''-1''"
    by blast+
  then show ?thesis using c p paginated3_reachable by simp
qed

theorem update_frame_witness:
  "reachable paginated3
   \<and> items (update (moved 0 1) paginated3) = items paginated3
   \<and> list_elm paginated3 = Some 1
   \<and> elements (update (moved 0 1) paginated3) 1 = elements paginated3 1
   \<and> \<lparr>li = 6, button = 7, page = 2\<rparr> \<in> set (items paginated3)
   \<and> elements (update (moved 0 1) paginated3) 6 = elements paginated3 6
   \<and> getAt (moved 0 1) paginated3 (getIndex (moved 0 1) True) \<noteq> Some \<lparr>li = 6, button = 7, page = 2\<rparr>
   \<and> getAt (moved 0 1) paginated3 (getIndex (moved 0 1) False) \<noteq> Some \<lparr>li = 6, button = 7, page = 2\<rparr>
   \<and> elements (update (moved 0 1) paginated3) 7 = elements paginated3 7
   \<and> ROLE \<noteq> ARIA_SELECTED \<and> ROLE \<noteq> TAB_INDEX
   \<and> attrs (elements (update (moved 0 1) paginated3) 5) ROLE = attrs (elements paginated3 5) ROLE"
proof -
  have c: "getAt (moved 0 1) paginated3 (getIndex (moved 0 1) False) \<noteq> Some \<lparr>li = 6, button = 7, page = 2\<rparr>"
    and p: "getAt (moved 0 1) paginated3 (getIndex (moved 0 1) True) \<noteq> Some \<lparr>li = 6, button = 7, page = 2\<rparr>"
    by (simp_all add: getAt_paginated3 getIndex_moved paginated3_items js_index_3)
  have m: "\<lparr>li = 6, button = 7, page = 2\<rparr> \<in> set (items paginated3)"
    by (simp add: paginated3_items)
  have r: "ROLE \<noteq> ARIA_SELECTED \<and> ROLE \<noteq> TAB_INDEX" by simp
  note f = update_frame[OF paginated3_reachable, of "moved 0 1"]
  from f have "items (update (moved 0 1) paginated3) = items paginated3" by blast
  moreover from f paginated3_list have "elements (update (moved 0 1) paginated3) 1 = elements paginated3 1"
    by blast
  moreover from f m have "elements (update (moved 0 1) paginated3) (li \<lparr>li = 6, button = 7, page = 2\<rparr>)
      = elements paginated3 (li \<lparr>li = 6, button = 7, page = 2\<rparr>)"
    by blast
  moreover from f m c p have "elements (update (moved 0 1) paginated3) (button \<lparr>li = 6, button = 7, page = 2\<rparr>)
      = elements paginated3 (button \<lparr>li = 6, button = 7, page = 2\<rparr>)"
    by blast
  moreover from f r have "attrs (elements (update (moved 0 1) paginated3) 5) ROLE = attrs (elements paginated3 5) ROLE"
    by blast
  ultimately show ?thesis using c p m r paginated3_reachable paginated3_list by simp
qed

theorem destroy_resets_witness:
  "reachable paginated3
   \<and> items (destroy paginated3) = [] \<and> list_elm (destroy paginated3) = None
   \<and> destroy (destroy paginated3) = destroy paginated3
   \<and> \<lparr>li = 4, button = 5, page = 1\<rparr> \<in> set (items paginated3)
   \<and> listeners (elements (destroy paginated3) 5) = []
   \<and> list_elm paginated3 = Some 1
   \<and> parent (elements (destroy paginated3) 1) = None"
proof -
  have m: "\<lparr>li = 4, button = 5, page = 1\<rparr> \<in> set (items paginated3)"
    by (simp add: paginated3_items)
  note d = destroy_resets[OF paginated3_reachable]
  from d m have "listeners (elements (destroy paginated3) (button \<lparr>li = 4, button = 5, page = 1\<rparr>)) = []"
    by blast
  moreover from d paginated3_list have "parent (elements (destroy paginated3) 1) = None" by blast
  ultimately show ?thesis using d m paginated3_reachable paginated3_list by simp
qed

theorem click_goes_to_page_witness:
  "reachable paginated3 \<and> 1 < length (items paginated3)
   \<and> dispatch carousel3 ''click'' '''' 5 paginated3 =
       (\<lparr>key = '''', defaultPrevented = False, propagationStopped = False\<rparr>,
        paginated3\<lparr>go_calls := go_calls paginated3 @ [(''>1'', Some True)]\<rparr>)"
proof -
  have l: "1 < length (items paginated3)" by (simp add: paginated3_items)
  have b: "button (items paginated3 ! 1) = 5" by (simp add: paginated3_items)
  have d: "show_nat 1 = ''1''" by (simp add: digit_char_def)
  from click_goes_to_page[OF paginated3_reachable l, of carousel3 "''''"]
  show ?thesis using l paginated3_reachable unfolding b d by simp
qed

lemma in_step_moved_0: "in_step (moved 0 c) paginated3"
proof -
  have "\<not> is_active paginated3 5" "\<not> is_active paginated3 7"
    by (simp_all add: is_active_def paginated3_buttons)
  then show ?thesis
    by (simp add: in_step_def paginated3_items getAt_paginated3 getIndex_moved js_index_3)
qed

text \<open>
  The move from index 0 to index 1 reported twice, as when \<^verbatim>\<open>scrolled\<close> follows \<^verbatim>\<open>move\<close>:
  the second \<^verbatim>\<open>update\<close> finds the button of page 1 lit already, and that of page 0 off.
\<close>

theorem roving_tabindex_witness:
  "reachable (update (moved 0 1) (update (moved 0 1) paginated3))
   \<and> reachable_in_step (update (moved 0 1) (update (moved 0 1) paginated3))
   \<and> is_active (update (moved 0 1) (update (moved 0 1) paginated3))
        (button (items (update (moved 0 1) (update (moved 0 1) paginated3)) ! 1))
   \<and> \<not> is_active (update (moved 0 1) (update (moved 0 1) paginated3))
        (button (items (update (moved 0 1) (update (moved 0 1) paginated3)) ! 0))
   \<and> attrs (elements (update (moved 0 1) (update (moved 0 1) paginated3))
        (button (items (update (moved 0 1) (update (moved 0 1) paginated3)) ! 0)))
        TAB_INDEX = Some ''-1''"
proof -
  let ?s = "update (moved 0 1) (update (moved 0 1) paginated3)"
  have w: "well_formed paginated3" using paginated3_reachable by (rule reachable_wf)
  have r: "reachable ?s"
    using by_update[OF by_update[OF paginated3_reachable]] .
  have q: "reachable_in_step ?s"
    using step_update[OF step_update[OF paginated3_in_step in_step_moved_0]
        in_step_repeated[OF w in_step_moved_0]] .
  have n: "length (items ?s) = 3" by (simp add: paginated3_items)
  have a: "is_active ?s (button (items ?s ! 1))"
    by (simp add: is_active_def update_elements Let_def paginated3_items getAt_paginated3
        getIndex_moved js_index_3 lit_def)
  from roving_tabindex[of ?s] r q
  have t: "\<forall>i<length (items ?s).
         (attrs (elements ?s (button (items ?s ! i))) TAB_INDEX = Some ''-1'')
           = (\<not> is_active ?s (button (items ?s ! i)))"
    and u: "\<forall>i<length (items ?s). \<forall>j<length (items ?s).
         is_active ?s (button (items ?s ! i)) \<and> is_active ?s (button (items ?s ! j)) \<longrightarrow> i = j"
    by blast+
  have "\<not> is_active ?s (button (items ?s ! 0))"
  proof
    assume "is_active ?s (button (items ?s ! 0))"
    with u a n have "(0::nat) = 1" by (metis zero_less_numeral one_less_numeral_iff semiring_norm(77))
    then show False by simp
  qed
  moreover from this t n
  have "attrs (elements ?s (button (items ?s ! 0))) TAB_INDEX = Some ''-1''"
    by (metis zero_less_numeral)
  ultimately show ?thesis using r q a by simp
qed

text \<open>
  Without the condition on the controller there can be two active buttons: after
  \<^verbatim>\<open>init\<close> at index 0, an \<^verbatim>\<open>update\<close> that is told previous index 1 and current
  index 2 turns off the button of page 1, which was off, and lights that of page 2; the
  button of page 0 stays lit.
\<close>

theorem roving_tabindex_counterexample:
  "reachable (update (moved 1 2) paginated3)
   \<and> is_active (update (moved 1 2) paginated3) (button (items (update (moved 1 2) paginated3) ! 0))
   \<and> is_active (update (moved 1 2) paginated3) (button (items (update (moved 1 2) paginated3) ! 2))"
proof -
  have "reachable (update (moved 1 2) paginated3)"
    using by_update[OF paginated3_reachable] .
  moreover have "is_active (update (moved 1 2) paginated3) 3"
    by (simp add: is_active_def update_elements Let_def paginated3_items getAt_paginated3
        getIndex_moved js_index_3 paginated3_buttons)
  moreover have "is_active (update (moved 1 2) paginated3) 7"
    by (simp add: is_active_def update_elements Let_def paginated3_items getAt_paginated3
        getIndex_moved js_index_3 paginated3_buttons)
  ultimately show ?thesis by (simp add: paginated3_items)
qed

subsection \<open>What \<^verbatim>\<open>init\<close> creates\<close>

lemma ceil_div_bounds:
  assumes "0 < b"
  shows "a \<le> nat \<lceil>real a / real b\<rceil> * b \<and> nat \<lceil>real a / real b\<rceil> * b < a + b"
proof -
  define c where "c = nat \<lceil>real a / real b\<rceil>"
  have "(0::real) \<le> real a / real b" by simp
  then have "- 1 < real a / real b" by linarith
  then have nn: "0 \<le> \<lceil>real a / real b\<rceil>" by (simp add: zero_le_ceiling)
  then have rc: "real c = of_int \<lceil>real a / real b\<rceil>" by (simp add: c_def)
  have "real a / real b \<le> real c" unfolding rc by (rule le_of_int_ceiling)
  then have "real a \<le> real c * real b" using assms by (simp add: pos_divide_le_eq)
  then have 1: "a \<le> c * b" by (metis of_nat_le_iff of_nat_mult)
  have "real c < real a / real b + 1"
    unfolding rc using ceiling_correct[of "real a / real b"] by linarith
  then have "real c * real b < (real a / real b + 1) * real b"
    using assms by (simp add: mult_less_cancel_right)
  also have "\<dots> = real a + real b" using assms by (simp add: field_simps)
  finally have "real (c * b) < real (a + b)" by simp
  then have 2: "c * b < a + b" by (simp only: of_nat_less_iff)
  from 1 2 show ?thesis by (simp add: c_def)
qed

lemma page_count_ends:
  assumes "hasFocus en \<or> 0 < opt_perPage en"
  shows "\<exists>m. page_count en = Some m \<and> max_pages en = Num m
           \<and> (if hasFocus en then m = splide_length en
               else splide_length en \<le> m * opt_perPage en
                    \<and> m * opt_perPage en < splide_length en + opt_perPage en)"
proof (cases "hasFocus en")
  case True
  then show ?thesis by (simp add: page_count_def max_pages_def)
next
  case False
  with assms have "0 < opt_perPage en" by simp
  then show ?thesis
    using False ceil_div_bounds[of "opt_perPage en" "splide_length en"]
    by (simp add: page_count_def max_pages_def js_ceil_div_def)
qed

lemma page_count_diverges:
  "\<not> hasFocus en \<Longrightarrow> opt_perPage en = 0 \<Longrightarrow> 0 < splide_length en \<Longrightarrow> page_count en = None"
  by (simp add: page_count_def max_pages_def js_ceil_div_def)

lemma init_diverges:
  "truthy (opt_pagination en) \<Longrightarrow> isEnough en \<Longrightarrow> page_count en = None \<Longrightarrow> init en s = None"
  by (simp add: init_eq)

lemma created_id_cases:
  assumes "n < x" "x < Suc (n + 2 * m)"
  shows "\<exists>j<m. x = Suc (n + 2 * j) \<or> x = Suc (Suc (n + 2 * j))"
proof -
  define d where "d = x - Suc n"
  have x: "x = Suc n + d" using assms by (simp add: d_def)
  have "d div 2 < m" using assms x by linarith
  moreover have "x = Suc (n + 2 * (d div 2)) \<or> x = Suc (Suc (n + 2 * (d div 2)))"
    using x by presburger
  ultimately show ?thesis by blast
qed

lemma createPagination_built:
  "page_count en = Some m \<Longrightarrow> createPagination en (destroy s) = Some (built en s m)"
  by (simp add: createPagination_eq built_def destroy_twice)

text \<open>
  Claim C2, as amended. When \<^verbatim>\<open>options.pagination\<close> is truthy, \<^verbatim>\<open>Slides.isEnough()\<close> holds
  and the carousel has focus or \<^verbatim>\<open>perPage\<close> is at least 1, \<^verbatim>\<open>init\<close> returns and has created
  exactly one \<^verbatim>\<open>ul\<close>, with role tablist and the label \<^verbatim>\<open>i18n.select\<close>, and \<open>m\<close> items, where
  \<open>m\<close> is the length with focus and the ceiling of length by \<^verbatim>\<open>perPage\<close> otherwise. The
  \<open>i\<close>-th item has page \<open>i\<close>, an \<^verbatim>\<open>li\<close> with role none in the list and in it a button with
  role tab and type button. Every button is created with tabindex -1; when \<^verbatim>\<open>init\<close>
  returns, the button of the current item has the empty tabindex and the others -1.
\<close>

theorem init_creates_pagination:
  assumes "reachable s" "truthy (opt_pagination en)" "isEnough en"
    "hasFocus en \<or> 0 < opt_perPage en"
  shows "\<exists>s' sc m. init en s = Some s' \<and> max_pages en = Num m
     \<and> (if hasFocus en then m = splide_length en
         else splide_length en \<le> m * opt_perPage en
              \<and> m * opt_perPage en < splide_length en + opt_perPage en)
     \<and> list_elm s' = Some (next_id s)
     \<and> (\<forall>x. next_id s \<le> x \<and> x < next_id s' \<longrightarrow> (tag (elements s' x) = ''ul'') = (x = next_id s))
     \<and> attrs (elements s' (next_id s)) ROLE = Some ''tablist''
     \<and> attrs (elements s' (next_id s)) ARIA_LABEL = Some (i18n_select en)
     \<and> parent (elements s' (next_id s)) = Some (pagination_parent en)
     \<and> length (items s') = m
     \<and> createPagination en (destroy s) = Some sc \<and> items sc = items s'
     \<and> (\<forall>i<m. page (items s' ! i) = i
           \<and> tag (elements s' (li (items s' ! i))) = ''li''
           \<and> attrs (elements s' (li (items s' ! i))) ROLE = Some ''none''
           \<and> parent (elements s' (li (items s' ! i))) = Some (next_id s)
           \<and> tag (elements s' (button (items s' ! i))) = ''button''
           \<and> parent (elements s' (button (items s' ! i))) = Some (li (items s' ! i))
           \<and> attrs (elements s' (button (items s' ! i))) ROLE = Some ''tab''
           \<and> attrs (elements s' (button (items s' ! i))) ''type'' = Some ''button''
           \<and> attrs (elements sc (button (items sc ! i))) TAB_INDEX = Some ''-1''
           \<and> attrs (elements s' (button (items s' ! i))) TAB_INDEX =
               Some (if toPage en (getIndex en False) = int i then '''' else ''-1''))"
proof -
  have w: "well_formed s" using assms(1) by (rule reachable_wf)
  from page_count_ends[OF assms(4)] obtain m where
    m: "page_count en = Some m" "max_pages en = Num m"
    "if hasFocus en then m = splide_length en
     else splide_length en \<le> m * opt_perPage en
          \<and> m * opt_perPage en < splide_length en + opt_perPage en"
    by blast
  from init_returns[OF assms(2,3) m(1)] obtain s' where s': "init en s = Some s'" by blast
  define sc where "sc = built en s m"
  have sc: "createPagination en (destroy s) = Some sc"
    using m(1) by (simp add: sc_def createPagination_built)
  from init_post[OF w assms(2,3) s'] m(1) have
    l: "list_elm s' = Some (next_id s)" and
    it: "items s' = created_items (Suc (next_id s)) m" and
    nx: "next_id s' = Suc (next_id s + 2 * m)" and
    le: "elements s' (next_id s) = list_elem en (next_id s)" and
    lis: "\<forall>j<m. elements s' (Suc (next_id s + 2 * j)) = li_elem (Some (next_id s))" and
    bs: "\<forall>j<m. elements s' (Suc (Suc (next_id s + 2 * j))) =
           (let e = button_elem en j (Suc (next_id s + 2 * j));
                e1 = (if toPage en (getIndex en True) = int j then off e else e)
            in if toPage en (getIndex en False) = int j then lit e1 else e1)"
    by auto
  have isc: "items sc = items s'"
    using w by (simp add: sc_def built_items wf_items_destroy it)
  have one: "(tag (elements s' x) = ''ul'') = (x = next_id s)"
    if "next_id s \<le> x \<and> x < next_id s'" for x
  proof (cases "x = next_id s")
    case True
    then show ?thesis by (simp add: le)
  next
    case False
    with that nx have "next_id s < x" "x < Suc (next_id s + 2 * m)" by simp_all
    from created_id_cases[OF this] obtain j where
      "j < m" "x = Suc (next_id s + 2 * j) \<or> x = Suc (Suc (next_id s + 2 * j))"
      by blast
    then have "tag (elements s' x) = ''li'' \<or> tag (elements s' x) = ''button''"
      using lis bs by (auto simp add: Let_def split: if_splits)
    with False show ?thesis by auto
  qed
  have each: "page (items s' ! i) = i
           \<and> tag (elements s' (li (items s' ! i))) = ''li''
           \<and> attrs (elements s' (li (items s' ! i))) ROLE = Some ''none''
           \<and> parent (elements s' (li (items s' ! i))) = Some (next_id s)
           \<and> tag (elements s' (button (items s' ! i))) = ''button''
           \<and> parent (elements s' (button (items s' ! i))) = Some (li (items s' ! i))
           \<and> attrs (elements s' (button (items s' ! i))) ROLE = Some ''tab''
           \<and> attrs (elements s' (button (items s' ! i))) ''type'' = Some ''button''
           \<and> attrs (elements sc (button (items sc ! i))) TAB_INDEX = Some ''-1''
           \<and> attrs (elements s' (button (items s' ! i))) TAB_INDEX =
               Some (if toPage en (getIndex en False) = int i then '''' else ''-1'')"
    if "i < m" for i
  proof -
    have a: "items s' ! i = \<lparr>li = Suc (next_id s + 2 * i), button = Suc (Suc (next_id s + 2 * i)), page = i\<rparr>"
      using that by (simp add: it)
    have b: "elements s' (Suc (next_id s + 2 * i)) = li_elem (Some (next_id s))"
      using lis that by simp
    have c: "elements s' (Suc (Suc (next_id s + 2 * i))) =
           (let e = button_elem en i (Suc (next_id s + 2 * i));
                e1 = (if toPage en (getIndex en True) = int i then off e else e)
            in if toPage en (getIndex en False) = int i then lit e1 else e1)"
      using bs that by simp
    have d: "elements sc (Suc (Suc (next_id s + 2 * i))) = button_elem en i (Suc (next_id s + 2 * i))"
      using that by (simp add: sc_def built_button)
    show ?thesis unfolding isc a by (simp add: b c d Let_def)
  qed
  show ?thesis
    using s' m(2,3) l one le sc isc each by (auto simp add: it)
qed

lemma unmounted_reachable: "reachable unmounted"
  using by_start[OF unmounted_initial] .

lemma carousel3_max: "max_pages carousel3 = Num 3"
  by (simp add: max_pages_def js_ceil_div_def carousel3_def)

theorem init_creates_pagination_witness:
  "reachable unmounted \<and> truthy (opt_pagination carousel3) \<and> isEnough carousel3
   \<and> (hasFocus carousel3 \<or> 0 < opt_perPage carousel3)
   \<and> init carousel3 unmounted = Some paginated3
   \<and> max_pages carousel3 = Num 3
   \<and> list_elm paginated3 = Some (next_id unmounted)
   \<and> length (items paginated3) = 3
   \<and> attrs (elements paginated3 (next_id unmounted)) ROLE = Some ''tablist''
   \<and> page (items paginated3 ! 1) = 1
   \<and> attrs (elements paginated3 (button (items paginated3 ! 1))) ROLE = Some ''tab''
   \<and> attrs (elements paginated3 (button (items paginated3 ! 1))) TAB_INDEX = Some ''-1''
   \<and> attrs (elements paginated3 (button (items paginated3 ! 0))) TAB_INDEX = Some ''''"
proof -
  have f: "hasFocus carousel3 \<or> 0 < opt_perPage carousel3" by (simp add: carousel3_def)
  have g: "toPage carousel3 (getIndex carousel3 False) = 0" by (simp add: carousel3_def)
  from init_creates_pagination[OF unmounted_reachable carousel3_enabled f]
  obtain s' sc m where
    a: "init carousel3 unmounted = Some s'" "max_pages carousel3 = Num m"
      "list_elm s' = Some (next_id unmounted)" "length (items s') = m"
      "attrs (elements s' (next_id unmounted)) ROLE = Some ''tablist''"
    and b: "\<forall>i<m. page (items s' ! i) = i
           \<and> attrs (elements s' (button (items s' ! i))) ROLE = Some ''tab''
           \<and> attrs (elements s' (button (items s' ! i))) TAB_INDEX =
               Some (if toPage carousel3 (getIndex carousel3 False) = int i then '''' else ''-1'')"
    by blast
  have s': "s' = paginated3" using a(1) paginated3_init by simp
  have m: "m = 3" using a(2) carousel3_max by simp
  from b have "page (items s' ! 1) = 1
           \<and> attrs (elements s' (button (items s' ! 1))) ROLE = Some ''tab''
           \<and> attrs (elements s' (button (items s' ! 1))) TAB_INDEX = Some ''-1''"
    "attrs (elements s' (button (items s' ! 0))) TAB_INDEX = Some ''''"
    unfolding m g by auto
  then show ?thesis
    using a f carousel3_enabled unmounted_reachable unfolding s' m by simp
qed

lemma stalled_diverges: "init stalled unmounted = None"
  by (rule init_diverges) (simp_all add: stalled_def carousel3_def page_count_diverges)

text \<open>
  The claim as first stated fails in two ways. With \<^verbatim>\<open>perPage\<close> 0 and no focus the bound of
  the loop is infinite and \<^verbatim>\<open>init\<close> does not return. And on the carousel of three slides,
  where it returns, the button of page 0, the current one, has the empty tabindex, not -1.
\<close>

theorem init_creates_pagination_counterexample:
  "truthy (opt_pagination stalled) \<and> isEnough stalled \<and> init stalled unmounted = None
   \<and> truthy (opt_pagination carousel3) \<and> isEnough carousel3
   \<and> init carousel3 unmounted = Some paginated3
   \<and> attrs (elements paginated3 (button (items paginated3 ! 0))) TAB_INDEX = Some ''''"
proof -
  have "attrs (elements paginated3 (button (items paginated3 ! 0))) TAB_INDEX = Some ''''"
    by (simp add: paginated3_items paginated3_buttons)
  moreover have "truthy (opt_pagination stalled) \<and> isEnough stalled"
    by (simp add: stalled_def carousel3_def)
  ultimately show ?thesis
    using stalled_diverges paginated3_init carousel3_enabled by simp
qed

subsection \<open>A second \<^verbatim>\<open>init\<close>\<close>

lemma list_view_init:
  "elements s' n = list_elem en n \<Longrightarrow>
   list_view s' n =
     ((''ul'', {classes_pagination en}, [ROLE \<mapsto> ''tablist'', ARIA_LABEL \<mapsto> i18n_select en],
       [(''focusin'', AddClass Own_list CLASS_FOCUS), (''focusout'', RemoveClass Own_list CLASS_FOCUS)]),
      Some (pagination_parent en))"
  by (simp add: list_view_def view_element_def list_elem_def local_ref_def)

lemma item_view_init:
  assumes "list_elm s' = Some n"
    and "elements s' (Suc (n + 2 * j)) = li_elem (Some n)"
    and "elements s' (Suc (Suc (n + 2 * j))) =
           (let e = button_elem en j (Suc (n + 2 * j));
                e1 = (if toPage en (getIndex en True) = int j then off e else e)
            in if toPage en (getIndex en False) = int j then lit e1 else e1)"
  shows "item_view s' \<lparr>li = Suc (n + 2 * j), button = Suc (Suc (n + 2 * j)), page = j\<rparr> =
     (j, ((''li'', {}, [ROLE \<mapsto> ''none''], []), Some Own_list),
         (let e = button_elem en j 0;
              e1 = (if toPage en (getIndex en True) = int j then off e else e);
              e2 = (if toPage en (getIndex en False) = int j then lit e1 else e1)
          in ((''button'', classes e2, attrs e2, [(''click'', OnClick j), (''keydown'', OnKeydown j)]),
              Some Own_li)))"
  using assms
  by (simp add: item_view_def view_element_def local_ref_def Let_def li_elem_def button_elem_def
      off_def lit_def)

lemma view_init:
  assumes "well_formed s" "truthy (opt_pagination en)" "isEnough en" "init en s = Some s'"
    "well_formed t" "init en t = Some t'"
  shows "view s' = view t'"
proof -
  from init_post[OF assms(1,2,3,4)] obtain m where
    m: "page_count en = Some m" and
    l: "list_elm s' = Some (next_id s)" and
    it: "items s' = created_items (Suc (next_id s)) m" and
    le: "elements s' (next_id s) = list_elem en (next_id s)" and
    lis: "\<forall>j<m. elements s' (Suc (next_id s + 2 * j)) = li_elem (Some (next_id s))" and
    bs: "\<forall>j<m. elements s' (Suc (Suc (next_id s + 2 * j))) =
           (let e = button_elem en j (Suc (next_id s + 2 * j));
                e1 = (if toPage en (getIndex en True) = int j then off e else e)
            in if toPage en (getIndex en False) = int j then lit e1 else e1)"
    by auto
  from init_post[OF assms(5,2,3,6)] m have
    l': "list_elm t' = Some (next_id t)" and
    it': "items t' = created_items (Suc (next_id t)) m" and
    le': "elements t' (next_id t) = list_elem en (next_id t)" and
    lis': "\<forall>j<m. elements t' (Suc (next_id t + 2 * j)) = li_elem (Some (next_id t))" and
    bs': "\<forall>j<m. elements t' (Suc (Suc (next_id t + 2 * j))) =
           (let e = button_elem en j (Suc (next_id t + 2 * j));
                e1 = (if toPage en (getIndex en True) = int j then off e else e)
            in if toPage en (getIndex en False) = int j then lit e1 else e1)"
    by auto
  have "list_view s' (next_id s) = list_view t' (next_id t)"
    by (simp add: list_view_init[OF le] list_view_init[OF le'])
  moreover have "map (item_view s') (items s') = map (item_view t') (items t')"
  proof (rule nth_equalityI)
    show "length (map (item_view s') (items s')) = length (map (item_view t') (items t'))"
      by (simp add: it it')
  next
    fix j
    assume "j < length (map (item_view s') (items s'))"
    then have j: "j < m" by (simp add: it)
    have "item_view s' \<lparr>li = Suc (next_id s + 2 * j), button = Suc (Suc (next_id s + 2 * j)), page = j\<rparr>
        = item_view t' \<lparr>li = Suc (next_id t + 2 * j), button = Suc (Suc (next_id t + 2 * j)), page = j\<rparr>"
      using item_view_init[OF l, of j en] item_view_init[OF l', of j en] lis bs lis' bs' j
      by simp
    then show "map (item_view s') (items s') ! j = map (item_view t') (items t') ! j"
      using j by (simp add: it it')
  qed
  ultimately show ?thesis by (simp add: view_def l l')
qed

text \<open>
  Claim C7. \<^verbatim>\<open>init\<close> destroys the pagination before it creates one, so a second \<^verbatim>\<open>init\<close>
  with the same answers of the collaborators returns and leaves the same pagination as the
  first, up to the identity of the new elements: the same list and the same items, as
  many as before, on new elements, with the list of the first call detached.
\<close>

theorem init_idempotent:
  assumes "reachable s" "init en s = Some s1"
  shows "\<exists>s2. init en s1 = Some s2 \<and> view s2 = view s1
     \<and> length (items s2) = length (items s1)
     \<and> (\<forall>l. list_elm s1 = Some l \<longrightarrow>
           parent (elements s2 l) = None \<and> list_elm s2 = Some (next_id s1))
     \<and> (\<forall>it \<in> set (items s2). next_id s1 < li it \<and> next_id s1 < button it)"
proof (cases "truthy (opt_pagination en) \<and> isEnough en")
  case False
  then have s1: "s1 = destroy s" using assms(2) init_disabled[OF False, of s] by simp
  have "init en s1 = Some s1" using init_disabled[OF False, of s1] by (simp add: s1 destroy_twice)
  moreover have "items s1 = []" "list_elm s1 = None"
    using reachable_wf[OF assms(1)] by (simp_all add: s1 wf_items_destroy)
  ultimately show ?thesis by simp
next
  case True
  then have e: "truthy (opt_pagination en)" "isEnough en" by simp_all
  have w: "well_formed s" using assms(1) by (rule reachable_wf)
  have w1: "well_formed s1" using w assms(2) by (rule wf_init)
  from init_post[OF w e assms(2)] obtain m where
    m: "page_count en = Some m" and
    l1: "list_elm s1 = Some (next_id s)" and
    it1: "items s1 = created_items (Suc (next_id s)) m" and
    nx1: "next_id s1 = Suc (next_id s + 2 * m)"
    by auto
  from init_returns[OF e m] obtain s2 where s2: "init en s1 = Some s2" by blast
  from init_post[OF w1 e s2] m have
    l2: "list_elm s2 = Some (next_id s1)" and
    it2: "items s2 = created_items (Suc (next_id s1)) m" and
    old: "\<forall>x<next_id s1. elements s2 x = elements (destroy s1) x"
    by auto
  have v: "view s2 = view s1" using view_init[OF w1 e s2 w assms(2)] .
  have "next_id s < next_id s1" by (simp add: nx1)
  then have "elements s2 (next_id s) = elements (destroy s1) (next_id s)" using old by simp
  then have p: "parent (elements s2 (next_id s)) = None"
    by (simp add: destroy_elements[OF l1] Let_def)
  have fresh: "next_id s1 < li it \<and> next_id s1 < button it" if "it \<in> set (items s2)" for it
  proof -
    from that it2 obtain j where "j < m" "it = created_items (Suc (next_id s1)) m ! j"
      by (metis in_set_conv_nth length_created_items)
    then show ?thesis by simp
  qed
  show ?thesis using s2 v p l1 l2 fresh by (simp add: it1 it2)
qed

theorem init_idempotent_witness:
  "reachable unmounted \<and> init carousel3 unmounted = Some paginated3
   \<and> view (the (init carousel3 paginated3)) = view paginated3
   \<and> length (items (the (init carousel3 paginated3))) = length (items paginated3)
   \<and> list_elm paginated3 = Some 1
   \<and> parent (elements (the (init carousel3 paginated3)) 1) = None
   \<and> list_elm (the (init carousel3 paginated3)) = Some (next_id paginated3)"
proof -
  from init_idempotent[OF unmounted_reachable paginated3_init] paginated3_list
  obtain s2 where "init carousel3 paginated3 = Some s2" "view s2 = view paginated3"
    "length (items s2) = length (items paginated3)"
    "parent (elements s2 1) = None \<and> list_elm s2 = Some (next_id paginated3)"
    by blast
  then show ?thesis using unmounted_reachable paginated3_init paginated3_list by simp
qed

subsection \<open>Keys on a button\<close>

text \<open>
  What \<^verbatim>\<open>onKeydown\<close> does for each key, on the button of a page \<open>p\<close> of the items. The
  focus goes to the button of \<^verbatim>\<open>nextPage\<close>; the command is built from \<^verbatim>\<open>page\<close>.
\<close>

lemma js_rem_nonneg:
  "0 \<le> a \<Longrightarrow> 0 < b \<Longrightarrow> js_rem a b = Some (a mod b)"
  by (cases "a = 0") (simp_all add: js_rem_def)

lemma js_index_nat: "x < length xs \<Longrightarrow> js_index xs (int x) = Some (xs ! x)"
  by (simp add: js_index_def)

lemma onKeydown_arrow_right:
  assumes "p < length (items s)" "normalizeKey en (key e) = resolve en ''ArrowRight''"
  shows "onKeydown en p e s =
     (prevent e,
      go (''>'' @ show_int (int p + 1)) None
        (focus (button (items s ! ((p + 1) mod length (items s)))) s))"
proof -
  have n: "0 < int (length (items s))" using assms(1) by auto
  have eq: "int p + 1 = int (p + 1)" by simp
  have "js_rem (int (p + 1)) (int (length (items s)))
      = Some (int (p + 1) mod int (length (items s)))"
    by (rule js_rem_nonneg) (use n in simp_all)
  then have r: "js_rem (int p + 1) (int (length (items s))) = Some (int ((p + 1) mod length (items s)))"
    by (simp only: eq zmod_int)
  have "0 < length (items s)" using assms(1) by linarith
  then have "(p + 1) mod length (items s) < length (items s)" by (rule mod_less_divisor)
  then have i: "js_index (items s) (int ((p + 1) mod length (items s)))
      = Some (items s ! ((p + 1) mod length (items s)))"
    by (rule js_index_nat)
  have t: "keydown_target en (int p) (int (length (items s))) (normalizeKey en (key e))
      = (int p + 1, Some (int ((p + 1) mod length (items s))))"
    unfolding keydown_target_def by (simp only: assms(2) simp_thms if_True r)
  show ?thesis
    unfolding onKeydown_def Let_def
    by (simp only: t prod.case js_index_opt_def option.case i)
qed

lemma onKeydown_arrow_left:
  assumes "p < length (items s)" "normalizeKey en (key e) \<noteq> resolve en ''ArrowRight''"
    "normalizeKey en (key e) = resolve en ''ArrowLeft''"
  shows "onKeydown en p e s =
     (prevent e,
      go (''>'' @ show_int (int p - 1)) None
        (focus (button (items s ! ((p + length (items s) - 1) mod length (items s)))) s))"
proof -
  have n: "0 < int (length (items s))" using assms(1) by auto
  have eq: "int p - 1 + int (length (items s)) = int (p + length (items s) - 1)"
    using assms(1) by linarith
  have "js_rem (int (p + length (items s) - 1)) (int (length (items s)))
      = Some (int (p + length (items s) - 1) mod int (length (items s)))"
    by (rule js_rem_nonneg) (use n in simp_all)
  then have r: "js_rem (int p - 1 + int (length (items s))) (int (length (items s)))
      = Some (int ((p + length (items s) - 1) mod length (items s)))"
    by (simp only: eq zmod_int)
  have "0 < length (items s)" using assms(1) by linarith
  then have "(p + length (items s) - 1) mod length (items s) < length (items s)"
    by (rule mod_less_divisor)
  then have i: "js_index (items s) (int ((p + length (items s) - 1) mod length (items s)))
      = Some (items s ! ((p + length (items s) - 1) mod length (items s)))"
    by (rule js_index_nat)
  have ne: "resolve en ''ArrowLeft'' \<noteq> resolve en ''ArrowRight''" using assms(2,3) by simp
  have t: "keydown_target en (int p) (int (length (items s))) (normalizeKey en (key e))
      = (int p - 1, Some (int ((p + length (items s) - 1) mod length (items s))))"
    unfolding keydown_target_def by (simp only: assms(3) ne simp_thms if_True if_False r)
  show ?thesis
    unfolding onKeydown_def Let_def
    by (simp only: t prod.case js_index_opt_def option.case i)
qed

lemma onKeydown_home:
  assumes "p < length (items s)" "normalizeKey en (key e) \<noteq> resolve en ''ArrowRight''"
    "normalizeKey en (key e) \<noteq> resolve en ''ArrowLeft''" "normalizeKey en (key e) = ''Home''"
  shows "onKeydown en p e s =
     (prevent e, go (''>'' @ show_int (int p)) None (focus (button (items s ! 0)) s))"
proof -
  have "js_index (items s) 0 = Some (items s ! 0)" using assms(1) by (auto simp add: js_index_def)
  then show ?thesis
    using assms(2,3,4) by (simp add: onKeydown_def keydown_target_def js_index_opt_def)
qed

lemma onKeydown_end:
  assumes "p < length (items s)" "normalizeKey en (key e) \<noteq> resolve en ''ArrowRight''"
    "normalizeKey en (key e) \<noteq> resolve en ''ArrowLeft''" "normalizeKey en (key e) = ''End''"
  shows "onKeydown en p e s =
     (prevent e,
      go (''>'' @ show_int (int p)) None (focus (button (items s ! (length (items s) - 1))) s))"
proof -
  have "int (length (items s)) - 1 = int (length (items s) - 1)" using assms(1) by linarith
  moreover have "length (items s) - 1 < length (items s)" using assms(1) by simp
  ultimately have "js_index (items s) (int (length (items s)) - 1) = Some (items s ! (length (items s) - 1))"
    using js_index_nat[of "length (items s) - 1" "items s"] by simp
  then show ?thesis
    using assms(2,3,4) by (simp add: onKeydown_def keydown_target_def js_index_opt_def)
qed

lemma onKeydown_other:
  assumes "normalizeKey en (key e) \<noteq> resolve en ''ArrowRight''"
    "normalizeKey en (key e) \<noteq> resolve en ''ArrowLeft''"
    "normalizeKey en (key e) \<noteq> ''Home''" "normalizeKey en (key e) \<noteq> ''End''"
  shows "onKeydown en p e s = (e, s)"
  using assms by (simp add: onKeydown_def keydown_target_def js_index_opt_def js_index_def)

lemma show_int_digits: "show_int 2 = ''2''" "show_int 3 = ''3''"
  by (simp_all add: show_int_def digit_char_def)

text \<open>
  Claim C4 at the keys it fails for. On the button of the last of three pages, Home and
  a resolved ArrowRight both move the focus to the button of page 0 and prevent the
  default action, but the command given to \<^verbatim>\<open>Controller.go\<close> is built from \<^verbatim>\<open>page\<close>, not
  from \<^verbatim>\<open>nextPage\<close>: \<^verbatim>\<open>>2\<close> for Home, the page of the key, and \<^verbatim>\<open>>3\<close> for ArrowRight, a
  page that does not exist.
\<close>

theorem keydown_commands_page_of_key:
  "dispatch carousel3 ''keydown'' ''Home'' (button (items paginated3 ! 2)) paginated3 =
     (\<lparr>key = ''Home'', defaultPrevented = True, propagationStopped = True\<rparr>,
      paginated3\<lparr>focused := Some (button (items paginated3 ! 0)),
                 go_calls := go_calls paginated3 @ [(''>2'', None)]\<rparr>)
   \<and> dispatch carousel3 ''keydown'' ''ArrowRight'' (button (items paginated3 ! 2)) paginated3 =
     (\<lparr>key = ''ArrowRight'', defaultPrevented = True, propagationStopped = True\<rparr>,
      paginated3\<lparr>focused := Some (button (items paginated3 ! 0)),
                 go_calls := go_calls paginated3 @ [(''>3'', None)]\<rparr>)"
proof -
  let ?home = "\<lparr>key = ''Home'', defaultPrevented = False, propagationStopped = False\<rparr>"
  let ?right = "\<lparr>key = ''ArrowRight'', defaultPrevented = False, propagationStopped = False\<rparr>"
  have l: "listeners (elements paginated3 7) = [(''click'', OnClick 2), (''keydown'', OnKeydown 2)]"
    by (simp add: paginated3_buttons)
  have n: "(2::nat) < length (items paginated3)" "length (items paginated3) = 3"
    by (simp_all add: paginated3_items)
  have k: "normalizeKey carousel3 x = x" "resolve carousel3 x = x" for x
    by (simp_all add: carousel3_def)
  have h: "onKeydown carousel3 2 ?home paginated3 =
      (prevent ?home, go (''>'' @ show_int (int 2)) None (focus (button (items paginated3 ! 0)) paginated3))"
    by (rule onKeydown_home[OF n(1)]) (simp_all add: k)
  have r: "onKeydown carousel3 2 ?right paginated3 =
      (prevent ?right, go (''>'' @ show_int (int 2 + 1)) None
         (focus (button (items paginated3 ! ((2 + 1) mod length (items paginated3)))) paginated3))"
    by (rule onKeydown_arrow_right[OF n(1)]) (simp_all add: k)
  have b: "button (items paginated3 ! 2) = 7" by (simp add: paginated3_items)
  show ?thesis
    unfolding b
    by (simp add: dispatch_def l h r n(2) show_int_digits prevent_def go_def focus_def)
qed

end
